theory Spec2Isabelle
  imports Main "HOL-Library.Word"
begin

section \<open>The data of hash.h\<close>

text \<open>
  A pointer is an address; address 0 is the null pointer. Every struct type has a heap
  of its own (a partial map from addresses to live objects), so a pointer to a freed or
  never allocated object is an address outside the heap's domain.
\<close>

type_synonym addr = nat

definition HASHSIZE :: nat where
  "HASHSIZE = 101"

text \<open>
  \<^verbatim>\<open>struct HashPair { void* key; void* element; };\<close>
  The key is whatever the strategies \<^verbatim>\<open>cmp\<close> and \<^verbatim>\<open>hash\<close> read through the
  \<^verbatim>\<open>void*\<close>, so it is a type parameter; the element is a pointer value.
\<close>

record 'k HashPair =
  key :: 'k
  element :: addr

text \<open>\<^verbatim>\<open>struct HashList { struct HashList* next; struct HashPair* pair; };\<close>\<close>

record HashList =
  next' :: addr
  pair :: addr

text \<open>
  \<^verbatim>\<open>struct HashTable\<close>: the bucket array and three function pointers, each of which may be
  null (\<open>None\<close>). The release callback receives the pair pointer and reads the pair; what
  it does is a change of the caller's own state \<open>'w\<close>.
\<close>

record ('k, 'w) HashTable =
  hashListArr :: addr
  cmp :: "('k \<Rightarrow> 'k \<Rightarrow> int) option"
  hash :: "('k \<Rightarrow> 32 word) option"
  onRemove :: "(addr \<Rightarrow> 'k HashPair \<Rightarrow> 'w \<Rightarrow> 'w) option"

record ('k, 'w) memory =
  tables :: "addr \<Rightarrow> ('k, 'w) HashTable option"
  arrays :: "addr \<Rightarrow> addr list option"
  nodes :: "addr \<Rightarrow> HashList option"
  pairs :: "addr \<Rightarrow> 'k HashPair option"
  brk :: addr
  world :: 'w

text \<open>What C leaves undefined is an error value of the model.\<close>

datatype error = BadPointer | OutOfBounds | NullCall | BadFree

text \<open>
  A \<^verbatim>\<open>struct HashList**\<close> points either at a slot of a bucket array or at the
  \<^verbatim>\<open>next\<close> field of a node.
\<close>

datatype cell = Bucket addr nat | Next addr

text \<open>
  The \<^verbatim>\<open>void*\<close> that \<^verbatim>\<open>HashTable_Has\<close> and \<^verbatim>\<open>HashTable_At\<close> return: null, or the
  address of the \<^verbatim>\<open>element\<close> field of a pair.
\<close>

datatype slot = Null_slot | Element_of addr

section \<open>Memory operations\<close>

definition load :: "('k, 'w) memory \<Rightarrow> cell \<Rightarrow> error + addr" where
  "load s c =
     (case c of
        Bucket a i \<Rightarrow>
          (case arrays s a of
             None \<Rightarrow> Inl BadPointer
           | Some xs \<Rightarrow> if i < length xs then Inr (xs ! i) else Inl OutOfBounds)
      | Next n \<Rightarrow>
          (case nodes s n of
             None \<Rightarrow> Inl BadPointer
           | Some nd \<Rightarrow> Inr (next' nd)))"

definition store :: "('k, 'w) memory \<Rightarrow> cell \<Rightarrow> addr \<Rightarrow> error + ('k, 'w) memory" where
  "store s c v =
     (case c of
        Bucket a i \<Rightarrow>
          (case arrays s a of
             None \<Rightarrow> Inl BadPointer
           | Some xs \<Rightarrow>
               if i < length xs then Inr (s\<lparr>arrays := (arrays s)(a \<mapsto> xs[i := v])\<rparr>)
               else Inl OutOfBounds)
      | Next n \<Rightarrow>
          (case nodes s n of
             None \<Rightarrow> Inl BadPointer
           | Some nd \<Rightarrow> Inr (s\<lparr>nodes := (nodes s)(n \<mapsto> nd\<lparr>next' := v\<rparr>)\<rparr>)))"

text \<open>
  \<^verbatim>\<open>malloc\<close> hands out the next unused address. The source never checks its result,
  and the model's \<^verbatim>\<open>malloc\<close> never fails.
\<close>

definition malloc :: "('k, 'w) memory \<Rightarrow> addr \<times> ('k, 'w) memory" where
  "malloc s = (brk s, s\<lparr>brk := Suc (brk s)\<rparr>)"

text \<open>\<^verbatim>\<open>free(0)\<close> does nothing; freeing what is not live is an error.\<close>

definition free_pair :: "('k, 'w) memory \<Rightarrow> addr \<Rightarrow> error + ('k, 'w) memory" where
  "free_pair s p =
     (if p = 0 then Inr s
      else case pairs s p of
             None \<Rightarrow> Inl BadFree
           | Some _ \<Rightarrow> Inr (s\<lparr>pairs := (pairs s)(p := None)\<rparr>))"

definition free_node :: "('k, 'w) memory \<Rightarrow> addr \<Rightarrow> error + ('k, 'w) memory" where
  "free_node s l =
     (if l = 0 then Inr s
      else case nodes s l of
             None \<Rightarrow> Inl BadFree
           | Some _ \<Rightarrow> Inr (s\<lparr>nodes := (nodes s)(l := None)\<rparr>))"

definition free_array :: "('k, 'w) memory \<Rightarrow> addr \<Rightarrow> error + ('k, 'w) memory" where
  "free_array s a =
     (if a = 0 then Inr s
      else case arrays s a of
             None \<Rightarrow> Inl BadFree
           | Some _ \<Rightarrow> Inr (s\<lparr>arrays := (arrays s)(a := None)\<rparr>))"

text \<open>\<^verbatim>\<open>(*list)->pair->key\<close> for a node pointer.\<close>

definition node_key :: "('k, 'w) memory \<Rightarrow> addr \<Rightarrow> error + 'k" where
  "node_key s n =
     (case nodes s n of
        None \<Rightarrow> Inl BadPointer
      | Some nd \<Rightarrow>
          (case pairs s (pair nd) of
             None \<Rightarrow> Inl BadPointer
           | Some pr \<Rightarrow> Inr (key pr)))"

text \<open>\<^verbatim>\<open>hashTable->cmp(a, b)\<close> and \<^verbatim>\<open>hashTable->hash(k)\<close>.\<close>

definition call_cmp :: "('k, 'w) memory \<Rightarrow> addr \<Rightarrow> 'k \<Rightarrow> 'k \<Rightarrow> error + int" where
  "call_cmp s hashTable a b =
     (case tables s hashTable of
        None \<Rightarrow> Inl BadPointer
      | Some t \<Rightarrow> (case cmp t of None \<Rightarrow> Inl NullCall | Some f \<Rightarrow> Inr (f a b)))"

definition call_hash :: "('k, 'w) memory \<Rightarrow> addr \<Rightarrow> 'k \<Rightarrow> error + 32 word" where
  "call_hash s hashTable k =
     (case tables s hashTable of
        None \<Rightarrow> Inl BadPointer
      | Some t \<Rightarrow> (case hash t of None \<Rightarrow> Inl NullCall | Some f \<Rightarrow> Inr (f k)))"

text \<open>\<^verbatim>\<open>&(hashTable->hashListArr[idx % HASHSIZE])\<close>: an address, nothing is read but the field.\<close>

definition bucket_cell :: "('k, 'w) memory \<Rightarrow> addr \<Rightarrow> 32 word \<Rightarrow> error + cell" where
  "bucket_cell s hashTable idx =
     (case tables s hashTable of
        None \<Rightarrow> Inl BadPointer
      | Some t \<Rightarrow> Inr (Bucket (hashListArr t) (unat idx mod HASHSIZE)))"

text \<open>\<^verbatim>\<open>&((*list)->pair->element)\<close>, or null when \<^verbatim>\<open>*list\<close> is null.\<close>

definition element_ref :: "('k, 'w) memory \<Rightarrow> cell \<Rightarrow> error + slot" where
  "element_ref s list =
     (case load s list of
        Inl e \<Rightarrow> Inl e
      | Inr p \<Rightarrow>
          if p = 0 then Inr Null_slot
          else (case nodes s p of
                  None \<Rightarrow> Inl BadPointer
                | Some nd \<Rightarrow> Inr (Element_of (pair nd))))"

text \<open>The caller reads and writes a value through the returned pointer.\<close>

definition read_slot :: "('k, 'w) memory \<Rightarrow> slot \<Rightarrow> error + addr" where
  "read_slot s r =
     (case r of
        Null_slot \<Rightarrow> Inl BadPointer
      | Element_of p \<Rightarrow>
          (case pairs s p of None \<Rightarrow> Inl BadPointer | Some pr \<Rightarrow> Inr (element pr)))"

definition write_slot :: "('k, 'w) memory \<Rightarrow> slot \<Rightarrow> addr \<Rightarrow> error + ('k, 'w) memory" where
  "write_slot s r v =
     (case r of
        Null_slot \<Rightarrow> Inl BadPointer
      | Element_of p \<Rightarrow>
          (case pairs s p of
             None \<Rightarrow> Inl BadPointer
           | Some pr \<Rightarrow> Inr (s\<lparr>pairs := (pairs s)(p \<mapsto> pr\<lparr>element := v\<rparr>)\<rparr>)))"

section \<open>The functions of hash.h\<close>

subsection \<open>HashTable_Ready\<close>

definition HashTable_Ready :: "('k, 'w) memory \<Rightarrow> addr \<Rightarrow> error + bool" where
  "HashTable_Ready s hashTable =
     (if hashTable = 0 then Inr False
      else case tables s hashTable of
             None \<Rightarrow> Inl BadPointer
           | Some t \<Rightarrow> Inr (hash t \<noteq> None))"

subsection \<open>HashTable_Init\<close>

definition calloc :: "('k, 'w) memory \<Rightarrow> nat \<Rightarrow> addr \<times> ('k, 'w) memory" where
  "calloc s n =
     (let (a, s1) = malloc s in (a, s1\<lparr>arrays := (arrays s1)(a \<mapsto> replicate n 0)\<rparr>))"

definition HashTable_Init ::
  "('k, 'w) memory \<Rightarrow> addr \<Rightarrow> ('k \<Rightarrow> 'k \<Rightarrow> int) option \<Rightarrow> ('k \<Rightarrow> 32 word) option \<Rightarrow>
   (addr \<Rightarrow> 'k HashPair \<Rightarrow> 'w \<Rightarrow> 'w) option \<Rightarrow> error + ('k, 'w) memory \<times> addr" where
  "HashTable_Init s hashTable c h r =
     (case tables s hashTable of
        None \<Rightarrow> Inl BadPointer
      | Some t \<Rightarrow>
          (let t1 = t\<lparr>cmp := c, hash := h, onRemove := r\<rparr>;
               (a, s1) = calloc s HASHSIZE
           in Inr (s1\<lparr>tables := (tables s1)(hashTable \<mapsto> t1\<lparr>hashListArr := a\<rparr>)\<rparr>, hashTable)))"

subsection \<open>HashTable_Has\<close>

text \<open>
  The loop \<^verbatim>\<open>while(*list && hashTable->cmp(key, (*list)->pair->key)) list = &((*list)->next);\<close>
  returns the final \<^verbatim>\<open>list\<close>. On a cyclic chain without a match it runs forever: \<open>None\<close>.
\<close>

partial_function (option) Has_loop ::
  "('k, 'w) memory \<Rightarrow> addr \<Rightarrow> 'k \<Rightarrow> cell \<Rightarrow> (error + cell) option" where
  "Has_loop s hashTable k list =
     (case load s list of
        Inl e \<Rightarrow> Some (Inl e)
      | Inr p \<Rightarrow>
          if p = 0 then Some (Inr list)
          else (case node_key s p of
                  Inl e \<Rightarrow> Some (Inl e)
                | Inr kp \<Rightarrow>
                    (case call_cmp s hashTable k kp of
                       Inl e \<Rightarrow> Some (Inl e)
                     | Inr d \<Rightarrow>
                         if d \<noteq> 0 then Has_loop s hashTable k (Next p)
                         else Some (Inr list))))"

definition HashTable_Has :: "('k, 'w) memory \<Rightarrow> addr \<Rightarrow> 'k \<Rightarrow> (error + slot) option" where
  "HashTable_Has s hashTable k =
     (case call_hash s hashTable k of
        Inl e \<Rightarrow> Some (Inl e)
      | Inr idx \<Rightarrow>
          (case bucket_cell s hashTable idx of
             Inl e \<Rightarrow> Some (Inl e)
           | Inr list0 \<Rightarrow>
               (case Has_loop s hashTable k list0 of
                  None \<Rightarrow> None
                | Some (Inl e) \<Rightarrow> Some (Inl e)
                | Some (Inr list) \<Rightarrow> Some (element_ref s list))))"

subsection \<open>HashTable_At\<close>

text \<open>The body of \<^verbatim>\<open>if(!(*list))\<close>: a new node and a new pair, linked in at \<^verbatim>\<open>*list\<close>.\<close>

definition new_entry :: "('k, 'w) memory \<Rightarrow> cell \<Rightarrow> 'k \<Rightarrow> error + ('k, 'w) memory" where
  "new_entry s list k =
     (let (l, s1) = malloc s;
          (p, s2) = malloc s1;
          s3 = s2\<lparr>pairs := (pairs s2)(p \<mapsto> \<lparr>key = k, element = 0\<rparr>)\<rparr>;
          s4 = s3\<lparr>nodes := (nodes s3)(l \<mapsto> \<lparr>next' = 0, pair = p\<rparr>)\<rparr>
      in store s4 list l)"

text \<open>
  The \<^verbatim>\<open>do { ... } while(hashTable->cmp(key, (*list)->pair->key));\<close> loop, entered with
  \<^verbatim>\<open>next\<close>; it returns the memory and the final \<^verbatim>\<open>list\<close>. A run that never leaves the
  loop is \<open>None\<close>.
\<close>

partial_function (option) At_loop ::
  "('k, 'w) memory \<Rightarrow> addr \<Rightarrow> 'k \<Rightarrow> cell \<Rightarrow> (error + ('k, 'w) memory \<times> cell) option" where
  "At_loop s hashTable k nxt =
     (let list = nxt in
      case load s list of
        Inl e \<Rightarrow> Some (Inl e)
      | Inr p \<Rightarrow>
          (case (if p = 0 then new_entry s list k else Inr s) of
             Inl e \<Rightarrow> Some (Inl e)
           | Inr s1 \<Rightarrow>
               (case load s1 list of
                  Inl e \<Rightarrow> Some (Inl e)
                | Inr q \<Rightarrow>
                    (case node_key s1 q of
                       Inl e \<Rightarrow> Some (Inl e)
                     | Inr kq \<Rightarrow>
                         (case call_cmp s1 hashTable k kq of
                            Inl e \<Rightarrow> Some (Inl e)
                          | Inr d \<Rightarrow>
                              if d \<noteq> 0 then At_loop s1 hashTable k (Next q)
                              else Some (Inr (s1, list)))))))"

definition HashTable_At ::
  "('k, 'w) memory \<Rightarrow> addr \<Rightarrow> 'k \<Rightarrow> (error + ('k, 'w) memory \<times> slot) option" where
  "HashTable_At s hashTable k =
     (case call_hash s hashTable k of
        Inl e \<Rightarrow> Some (Inl e)
      | Inr idx \<Rightarrow>
          (case bucket_cell s hashTable idx of
             Inl e \<Rightarrow> Some (Inl e)
           | Inr nxt \<Rightarrow>
               (case At_loop s hashTable k nxt of
                  None \<Rightarrow> None
                | Some (Inl e) \<Rightarrow> Some (Inl e)
                | Some (Inr (s1, list)) \<Rightarrow>
                    (case element_ref s1 list of
                       Inl e \<Rightarrow> Some (Inl e)
                     | Inr r \<Rightarrow> Some (Inr (s1, r))))))"

subsection \<open>HashTable_Destroy\<close>

text \<open>\<^verbatim>\<open>if(hashTable->onRemove) hashTable->onRemove(l->pair);\<close>\<close>

definition call_onRemove ::
  "('k, 'w) memory \<Rightarrow> addr \<Rightarrow> addr \<Rightarrow> error + ('k, 'w) memory" where
  "call_onRemove s hashTable p =
     (case tables s hashTable of
        None \<Rightarrow> Inl BadPointer
      | Some t \<Rightarrow>
          (case onRemove t of
             None \<Rightarrow> Inr s
           | Some f \<Rightarrow>
               (case pairs s p of
                  None \<Rightarrow> Inl BadPointer
                | Some pr \<Rightarrow> Inr (s\<lparr>world := f p pr (world s)\<rparr>))))"

text \<open>The inner \<^verbatim>\<open>while(l)\<close> loop over one chain.\<close>

partial_function (option) Destroy_while ::
  "('k, 'w) memory \<Rightarrow> addr \<Rightarrow> addr \<Rightarrow> (error + ('k, 'w) memory) option" where
  "Destroy_while s hashTable l =
     (if l = 0 then Some (Inr s)
      else case nodes s l of
             None \<Rightarrow> Some (Inl BadPointer)
           | Some nd \<Rightarrow>
               (let nxt = next' nd in
                case call_onRemove s hashTable (pair nd) of
                  Inl e \<Rightarrow> Some (Inl e)
                | Inr s1 \<Rightarrow>
                    (case free_pair s1 (pair nd) of
                       Inl e \<Rightarrow> Some (Inl e)
                     | Inr s2 \<Rightarrow>
                         (case free_node s2 l of
                            Inl e \<Rightarrow> Some (Inl e)
                          | Inr s3 \<Rightarrow> Destroy_while s3 hashTable nxt))))"

text \<open>The outer \<^verbatim>\<open>for(int i = 0; i < HASHSIZE; i++)\<close> loop, over the indices still to visit.\<close>

primrec Destroy_for ::
  "nat list \<Rightarrow> ('k, 'w) memory \<Rightarrow> addr \<Rightarrow> (error + ('k, 'w) memory) option" where
  "Destroy_for [] s hashTable = Some (Inr s)"
| "Destroy_for (i # is) s hashTable =
     (case tables s hashTable of
        None \<Rightarrow> Some (Inl BadPointer)
      | Some t \<Rightarrow>
          (case load s (Bucket (hashListArr t) i) of
             Inl e \<Rightarrow> Some (Inl e)
           | Inr l \<Rightarrow>
               (case Destroy_while s hashTable l of
                  None \<Rightarrow> None
                | Some (Inl e) \<Rightarrow> Some (Inl e)
                | Some (Inr s1) \<Rightarrow> Destroy_for is s1 hashTable)))"

definition HashTable_Destroy ::
  "('k, 'w) memory \<Rightarrow> addr \<Rightarrow> (error + ('k, 'w) memory) option" where
  "HashTable_Destroy s hashTable =
     (case (if hashTable = 0 then Inr False else HashTable_Ready s hashTable) of
        Inl e \<Rightarrow> Some (Inl e)
      | Inr False \<Rightarrow> Some (Inr s)
      | Inr True \<Rightarrow>
          (case Destroy_for [0..<HASHSIZE] s hashTable of
             None \<Rightarrow> None
           | Some (Inl e) \<Rightarrow> Some (Inl e)
           | Some (Inr s1) \<Rightarrow>
               (case tables s1 hashTable of
                  None \<Rightarrow> Some (Inl BadPointer)
                | Some t \<Rightarrow>
                    (case free_array s1 (hashListArr t) of
                       Inl e \<Rightarrow> Some (Inl e)
                     | Inr s2 \<Rightarrow>
                         (case tables s2 hashTable of
                            None \<Rightarrow> Some (Inl BadPointer)
                          | Some t2 \<Rightarrow>
                              Some (Inr (s2\<lparr>tables :=
                                (tables s2)(hashTable \<mapsto> t2\<lparr>hash := None\<rparr>)\<rparr>)))))))"

section \<open>Ready tables\<close>

text \<open>
  An entry of the table, as the proofs see it: the address of its chain node, the address
  of its pair, and the key stored in the pair.
\<close>

record 'k entry =
  e_node :: addr
  e_pair :: addr
  e_key :: 'k

text \<open>
  \<open>chain s p es\<close>: in memory \<open>s\<close> the pointer \<open>p\<close> heads a null-terminated chain whose
  nodes, pairs and keys are those of \<open>es\<close>, in order.
\<close>

primrec chain :: "('k, 'w) memory \<Rightarrow> addr \<Rightarrow> 'k entry list \<Rightarrow> bool" where
  "chain s p [] = (p = 0)"
| "chain s p (e # es) =
     (p = e_node e \<and> p \<noteq> 0 \<and>
      (case nodes s p of
         None \<Rightarrow> False
       | Some nd \<Rightarrow>
           pair nd = e_pair e \<and>
           (case pairs s (e_pair e) of None \<Rightarrow> False | Some pr \<Rightarrow> key pr = e_key e) \<and>
           chain s (next' nd) es))"

text \<open>All entries of a table whose bucket \<open>i\<close> holds \<open>cs i\<close>, in bucket order.\<close>

definition entries :: "(nat \<Rightarrow> 'k entry list) \<Rightarrow> 'k entry list" where
  "entries cs = concat (map cs [0..<HASHSIZE])"

text \<open>No object lives at the null address.\<close>

definition null_free :: "('k, 'w) memory \<Rightarrow> bool" where
  "null_free s =
     (tables s 0 = None \<and> arrays s 0 = None \<and> nodes s 0 = None \<and> pairs s 0 = None)"

text \<open>
  \<open>wf_table s hashTable cs\<close>: \<open>hashTable\<close> points to an initialised table whose bucket
  array has \<open>HASHSIZE\<close> slots, slot \<open>i\<close> heading the chain \<open>cs i\<close>; no node and no pair is
  shared, every address in use lies below \<open>brk\<close>, and nothing lives at the null address.
  This is the state that \<^verbatim>\<open>HashTable_Init\<close> establishes and \<^verbatim>\<open>HashTable_At\<close> maintains.
\<close>

definition wf_table :: "('k, 'w) memory \<Rightarrow> addr \<Rightarrow> (nat \<Rightarrow> 'k entry list) \<Rightarrow> bool" where
  "wf_table s hashTable cs =
     (hashTable \<noteq> 0 \<and> 0 < brk s \<and> null_free s \<and>
      (case tables s hashTable of
         None \<Rightarrow> False
       | Some t \<Rightarrow>
           cmp t \<noteq> None \<and> hash t \<noteq> None \<and>
           (case arrays s (hashListArr t) of
              None \<Rightarrow> False
            | Some arr \<Rightarrow>
                length arr = HASHSIZE \<and>
                (\<forall>i<HASHSIZE. chain s (arr ! i) (cs i)) \<and>
                (\<forall>e\<in>set (entries cs). e_node e < brk s \<and> e_pair e < brk s) \<and>
                distinct (map e_node (entries cs)) \<and>
                distinct (map e_pair (entries cs)))))"

text \<open>The strategies of a table, for stating what they are expected to satisfy.\<close>

definition table_cmp :: "('k, 'w) memory \<Rightarrow> addr \<Rightarrow> 'k \<Rightarrow> 'k \<Rightarrow> int" where
  "table_cmp s hashTable = (case tables s hashTable of
      Some t \<Rightarrow> (case cmp t of Some f \<Rightarrow> f | None \<Rightarrow> (\<lambda>a b. 1))
    | None \<Rightarrow> (\<lambda>a b. 1))"

definition table_hash :: "('k, 'w) memory \<Rightarrow> addr \<Rightarrow> 'k \<Rightarrow> 32 word" where
  "table_hash s hashTable = (case tables s hashTable of
      Some t \<Rightarrow> (case hash t of Some f \<Rightarrow> f | None \<Rightarrow> (\<lambda>a. 0))
    | None \<Rightarrow> (\<lambda>a. 0))"

text \<open>The index of the bucket that \<^verbatim>\<open>hash(key) % HASHSIZE\<close> selects.\<close>

definition bucket_of :: "('k, 'w) memory \<Rightarrow> addr \<Rightarrow> 'k \<Rightarrow> nat" where
  "bucket_of s hashTable k = unat (table_hash s hashTable k) mod HASHSIZE"

text \<open>The first entry of a chain whose key the strategy finds equal to \<open>k\<close>.\<close>

definition lookup_entry ::
  "('k \<Rightarrow> 'k \<Rightarrow> int) \<Rightarrow> 'k \<Rightarrow> 'k entry list \<Rightarrow> 'k entry option" where
  "lookup_entry c k es = find (\<lambda>e. c k (e_key e) = 0) es"

text \<open>The entry that \<^verbatim>\<open>HashTable_At\<close> creates for \<open>k\<close> in memory \<open>s\<close>.\<close>

definition new_e :: "('k, 'w) memory \<Rightarrow> 'k \<Rightarrow> 'k entry" where
  "new_e s k = \<lparr>e_node = brk s, e_pair = Suc (brk s), e_key = k\<rparr>"

text \<open>The cell that ends a chain entered through \<open>cl\<close>.\<close>

primrec tail_cell :: "cell \<Rightarrow> 'k entry list \<Rightarrow> cell" where
  "tail_cell cl [] = cl"
| "tail_cell cl (e # es) = tail_cell (Next (e_node e)) es"

text \<open>The table \<^verbatim>\<open>struct HashTable t = {0};\<close>\<close>

definition zero_table :: "('k, 'w) HashTable" where
  "zero_table = \<lparr>hashListArr = 0, cmp = None, hash = None, onRemove = None\<rparr>"

text \<open>
  What one call \<^verbatim>\<open>hashTable->onRemove(l->pair)\<close> for the entry \<open>e\<close> does to the caller's
  state \<open>w\<close>, the pair being read from memory \<open>s\<close>; nothing when no callback was supplied.
\<close>

definition release ::
  "(addr \<Rightarrow> 'k HashPair \<Rightarrow> 'w \<Rightarrow> 'w) option \<Rightarrow> ('k, 'w) memory \<Rightarrow> 'w \<Rightarrow> 'k entry \<Rightarrow> 'w" where
  "release r s w e =
     (case r of
        None \<Rightarrow> w
      | Some f \<Rightarrow> (case pairs s (e_pair e) of None \<Rightarrow> w | Some pr \<Rightarrow> f (e_pair e) pr w))"

text \<open>The release callback of a table.\<close>

definition table_onRemove ::
  "('k, 'w) memory \<Rightarrow> addr \<Rightarrow> (addr \<Rightarrow> 'k HashPair \<Rightarrow> 'w \<Rightarrow> 'w) option" where
  "table_onRemove s hashTable =
     (case tables s hashTable of Some t \<Rightarrow> onRemove t | None \<Rightarrow> None)"

section \<open>Notions the properties are stated with\<close>

text \<open>Every entry sits in the bucket that the hash of its key selects.\<close>

definition placed :: "('k, 'w) memory \<Rightarrow> addr \<Rightarrow> (nat \<Rightarrow> 'k entry list) \<Rightarrow> bool" where
  "placed s hashTable cs =
     (\<forall>i<HASHSIZE. \<forall>e\<in>set (cs i). bucket_of s hashTable (e_key e) = i)"

text \<open>No two entries hold keys that the equality strategy \<open>c\<close> finds equal.\<close>

definition unique_keys :: "('k \<Rightarrow> 'k \<Rightarrow> int) \<Rightarrow> 'k entry list \<Rightarrow> bool" where
  "unique_keys c es = (\<forall>e\<in>set es. \<forall>e'\<in>set es. c (e_key e) (e_key e') = 0 \<longrightarrow> e = e')"

text \<open>The strategy \<open>c\<close> is an equivalence relation on the keys \<open>K\<close>.\<close>

definition equivalence_on :: "'k set \<Rightarrow> ('k \<Rightarrow> 'k \<Rightarrow> int) \<Rightarrow> bool" where
  "equivalence_on K c =
     ((\<forall>a\<in>K. c a a = 0) \<and>
      (\<forall>a\<in>K. \<forall>b\<in>K. c a b = 0 \<longrightarrow> c b a = 0) \<and>
      (\<forall>a\<in>K. \<forall>b\<in>K. \<forall>d\<in>K. c a b = 0 \<longrightarrow> c b d = 0 \<longrightarrow> c a d = 0))"

text \<open>Keys of \<open>K\<close> that \<open>c\<close> finds equal select the same bucket under the hash strategy \<open>h\<close>.\<close>

definition hash_respects :: "'k set \<Rightarrow> ('k \<Rightarrow> 'k \<Rightarrow> int) \<Rightarrow> ('k \<Rightarrow> 32 word) \<Rightarrow> bool" where
  "hash_respects K c h =
     (\<forall>a\<in>K. \<forall>b\<in>K. c a b = 0 \<longrightarrow> unat (h a) mod HASHSIZE = unat (h b) mod HASHSIZE)"

text \<open>
  The number of distinct keys in a list, distinctness by the equality strategy: the number
  of classes of equal keys.
\<close>

definition key_class :: "('k \<Rightarrow> 'k \<Rightarrow> int) \<Rightarrow> 'k list \<Rightarrow> 'k \<Rightarrow> 'k set" where
  "key_class c ks k = {x \<in> set ks. c k x = 0}"

definition num_distinct :: "('k \<Rightarrow> 'k \<Rightarrow> int) \<Rightarrow> 'k list \<Rightarrow> nat" where
  "num_distinct c ks = card (key_class c ks ` set ks)"

text \<open>A caller's sequence of \<^verbatim>\<open>HashTable_At\<close> calls, one per key, results discarded.\<close>

fun At_seq :: "('k, 'w) memory \<Rightarrow> addr \<Rightarrow> 'k list \<Rightarrow> (error + ('k, 'w) memory) option" where
  "At_seq s hashTable [] = Some (Inr s)"
| "At_seq s hashTable (k # ks) =
     (case HashTable_At s hashTable k of
        None \<Rightarrow> None
      | Some (Inl e) \<Rightarrow> Some (Inl e)
      | Some (Inr (s1, r)) \<Rightarrow> At_seq s1 hashTable ks)"

text \<open>
  The \<^verbatim>\<open>do ... while\<close> loop of \<^verbatim>\<open>HashTable_At\<close> with a bound on how often its body
  may run: \<open>At_loop_n n\<close> is \<open>None\<close> when the loop has not finished after \<open>n\<close> executions
  of the body.
\<close>

primrec At_loop_n ::
  "nat \<Rightarrow> ('k, 'w) memory \<Rightarrow> addr \<Rightarrow> 'k \<Rightarrow> cell \<Rightarrow> (error + ('k, 'w) memory \<times> cell) option" where
  "At_loop_n 0 s hashTable k nxt = None"
| "At_loop_n (Suc n) s hashTable k nxt =
     (let list = nxt in
      case load s list of
        Inl e \<Rightarrow> Some (Inl e)
      | Inr p \<Rightarrow>
          (case (if p = 0 then new_entry s list k else Inr s) of
             Inl e \<Rightarrow> Some (Inl e)
           | Inr s1 \<Rightarrow>
               (case load s1 list of
                  Inl e \<Rightarrow> Some (Inl e)
                | Inr q \<Rightarrow>
                    (case node_key s1 q of
                       Inl e \<Rightarrow> Some (Inl e)
                     | Inr kq \<Rightarrow>
                         (case call_cmp s1 hashTable k kq of
                            Inl e \<Rightarrow> Some (Inl e)
                          | Inr d \<Rightarrow>
                              if d \<noteq> 0 then At_loop_n n s1 hashTable k (Next q)
                              else Some (Inr (s1, list)))))))"

section \<open>Example strategies and memories\<close>

text \<open>
  The strategies of the README's second example, whose keys are integers cast to pointers.
  \<^verbatim>\<open>cmp\<close> returns \<^verbatim>\<open>m1 - m2\<close> as an \<^verbatim>\<open>int\<close>: the low 32 bits of the pointer difference, read as
  a signed number, so that keys differing by a multiple of \<open>2 ^ 32\<close> compare equal. \<^verbatim>\<open>hash\<close>
  returns \<^verbatim>\<open>(unsigned int)key\<close>, the low 32 bits of the key.
\<close>

definition cmp_ptr :: "nat \<Rightarrow> nat \<Rightarrow> int" where
  "cmp_ptr m1 m2 = sint (word_of_int (int m1 - int m2) :: 32 word)"

definition hash_ptr :: "nat \<Rightarrow> 32 word" where
  "hash_ptr k = of_nat k"

text \<open>A release callback that appends the pair pointer and the pair it reads to a log.\<close>

definition log_onRemove ::
  "addr \<Rightarrow> nat HashPair \<Rightarrow> (addr \<times> nat HashPair) list \<Rightarrow> (addr \<times> nat HashPair) list" where
  "log_onRemove p pr w = w @ [(p, pr)]"

text \<open>The address of the table in the example memories.\<close>

definition tbl :: addr where
  "tbl = 1"

text \<open>A memory holding one zero-initialised table, at address \<open>tbl\<close>.\<close>

definition mem0 :: "(nat, (addr \<times> nat HashPair) list) memory" where
  "mem0 = \<lparr>tables = [tbl \<mapsto> zero_table], arrays = Map.empty, nodes = Map.empty,
            pairs = Map.empty, brk = 2, world = []\<rparr>"

text \<open>
  \<open>table_mem c h r arr nds prs b w\<close>: a memory whose table at address \<open>tbl\<close> has the strategies
  \<open>c\<close>, \<open>h\<close>, \<open>r\<close> and the bucket array \<open>arr\<close> at address 2.
\<close>

definition table_mem ::
  "(nat \<Rightarrow> nat \<Rightarrow> int) \<Rightarrow> (nat \<Rightarrow> 32 word) \<Rightarrow>
   (addr \<Rightarrow> nat HashPair \<Rightarrow> (addr \<times> nat HashPair) list \<Rightarrow> (addr \<times> nat HashPair) list) option \<Rightarrow>
   addr list \<Rightarrow> (addr \<Rightarrow> HashList option) \<Rightarrow> (addr \<Rightarrow> nat HashPair option) \<Rightarrow> addr \<Rightarrow>
   (addr \<times> nat HashPair) list \<Rightarrow> (nat, (addr \<times> nat HashPair) list) memory" where
  "table_mem c h r arr nds prs b w =
     \<lparr>tables = [tbl \<mapsto> \<lparr>hashListArr = 2, cmp = Some c, hash = Some h, onRemove = r\<rparr>],
      arrays = [2 \<mapsto> arr], nodes = nds, pairs = prs, brk = b, world = w\<rparr>"

text \<open>
  The memory after \<^verbatim>\<open>HashTable_Init(&t, cmp, hash, onRemove)\<close> on \<open>mem0\<close> with the
  example strategies and the logging callback: an empty ready table.
\<close>

definition mem_init :: "(nat, (addr \<times> nat HashPair) list) memory" where
  "mem_init = table_mem cmp_ptr hash_ptr (Some log_onRemove) (replicate HASHSIZE 0)
                Map.empty Map.empty 3 []"

text \<open>
  An equality strategy that finds two keys equal when they have the same parity, and an
  empty ready table that uses it with the hash strategy of the README's example.
\<close>

definition cmp_parity :: "nat \<Rightarrow> nat \<Rightarrow> int" where
  "cmp_parity a b = (if a mod 2 = b mod 2 then 0 else 1)"

definition mem_parity :: "(nat, (addr \<times> nat HashPair) list) memory" where
  "mem_parity = table_mem cmp_parity hash_ptr None (replicate HASHSIZE 0)
                  Map.empty Map.empty 3 []"

text \<open>The memory after \<^verbatim>\<open>HashTable_At\<close> for the keys 3 and 5 on \<open>mem_parity\<close>.\<close>

definition mem_parity2 :: "(nat, (addr \<times> nat HashPair) list) memory" where
  "mem_parity2 = table_mem cmp_parity hash_ptr None ((replicate HASHSIZE 0)[3 := 3, 5 := 5])
                  [3 \<mapsto> \<lparr>next' = 0, pair = 4\<rparr>, 5 \<mapsto> \<lparr>next' = 0, pair = 6\<rparr>]
                  [4 \<mapsto> \<lparr>key = 3, element = 0\<rparr>, 6 \<mapsto> \<lparr>key = 5, element = 0\<rparr>] 7 []"

definition cs_parity2 :: "nat \<Rightarrow> nat entry list" where
  "cs_parity2 = (\<lambda>i. [])(3 := [\<lparr>e_node = 3, e_pair = 4, e_key = 3\<rparr>],
                          5 := [\<lparr>e_node = 5, e_pair = 6, e_key = 5\<rparr>])"

text \<open>
  A scenario with the logging callback, on \<open>mem_init\<close>: \<^verbatim>\<open>HashTable_At\<close> for key 42,
  the value 88 written through the returned pointer, then the same for key 7 and value 89.
  \<open>mem_42\<close> is the memory after the first call, \<open>mem_42X\<close> after the first write,
  \<open>mem_42X_7\<close> after the second call, \<open>mem_two\<close> after the second write; \<open>cs_42\<close> and
  \<open>cs_two\<close> are the chains of the tables.
\<close>

definition mem_42 :: "(nat, (addr \<times> nat HashPair) list) memory" where
  "mem_42 = table_mem cmp_ptr hash_ptr (Some log_onRemove) ((replicate HASHSIZE 0)[42 := 3])
              [3 \<mapsto> \<lparr>next' = 0, pair = 4\<rparr>] [4 \<mapsto> \<lparr>key = 42, element = 0\<rparr>] 5 []"

definition mem_42X :: "(nat, (addr \<times> nat HashPair) list) memory" where
  "mem_42X = table_mem cmp_ptr hash_ptr (Some log_onRemove) ((replicate HASHSIZE 0)[42 := 3])
              [3 \<mapsto> \<lparr>next' = 0, pair = 4\<rparr>] [4 \<mapsto> \<lparr>key = 42, element = 88\<rparr>] 5 []"

definition mem_42X_7 :: "(nat, (addr \<times> nat HashPair) list) memory" where
  "mem_42X_7 = table_mem cmp_ptr hash_ptr (Some log_onRemove)
              ((replicate HASHSIZE 0)[42 := 3, 7 := 5])
              [3 \<mapsto> \<lparr>next' = 0, pair = 4\<rparr>, 5 \<mapsto> \<lparr>next' = 0, pair = 6\<rparr>]
              [4 \<mapsto> \<lparr>key = 42, element = 88\<rparr>, 6 \<mapsto> \<lparr>key = 7, element = 0\<rparr>] 7 []"

definition mem_two :: "(nat, (addr \<times> nat HashPair) list) memory" where
  "mem_two = table_mem cmp_ptr hash_ptr (Some log_onRemove)
              ((replicate HASHSIZE 0)[42 := 3, 7 := 5])
              [3 \<mapsto> \<lparr>next' = 0, pair = 4\<rparr>, 5 \<mapsto> \<lparr>next' = 0, pair = 6\<rparr>]
              [4 \<mapsto> \<lparr>key = 42, element = 88\<rparr>, 6 \<mapsto> \<lparr>key = 7, element = 89\<rparr>] 7 []"

definition cs_42 :: "nat \<Rightarrow> nat entry list" where
  "cs_42 = (\<lambda>i. [])(42 := [\<lparr>e_node = 3, e_pair = 4, e_key = 42\<rparr>])"

definition cs_two :: "nat \<Rightarrow> nat entry list" where
  "cs_two = (\<lambda>i. [])(7 := [\<lparr>e_node = 5, e_pair = 6, e_key = 7\<rparr>],
                      42 := [\<lparr>e_node = 3, e_pair = 4, e_key = 42\<rparr>])"

text \<open>An equality strategy that finds no key equal to any key, and an empty ready table using it.\<close>

definition cmp_never :: "nat \<Rightarrow> nat \<Rightarrow> int" where
  "cmp_never a b = 1"

definition mem_never :: "(nat, (addr \<times> nat HashPair) list) memory" where
  "mem_never = table_mem cmp_never hash_ptr None (replicate HASHSIZE 0) Map.empty Map.empty 3 []"

text \<open>
  An equality strategy that finds every key equal to the key 5 and to no other key; an
  empty ready table using it, \<open>mem_five0\<close>; and the memory \<open>mem_five\<close> after
  \<^verbatim>\<open>HashTable_At\<close> for key 5 on \<open>mem_five0\<close>, with its chains \<open>cs_five\<close>.
\<close>

definition cmp_five :: "nat \<Rightarrow> nat \<Rightarrow> int" where
  "cmp_five a b = (if b = 5 then 0 else 1)"

definition mem_five0 :: "(nat, (addr \<times> nat HashPair) list) memory" where
  "mem_five0 = table_mem cmp_five hash_ptr None (replicate HASHSIZE 0) Map.empty Map.empty 3 []"

definition mem_five :: "(nat, (addr \<times> nat HashPair) list) memory" where
  "mem_five = table_mem cmp_five hash_ptr None ((replicate HASHSIZE 0)[5 := 3])
                [3 \<mapsto> \<lparr>next' = 0, pair = 4\<rparr>] [4 \<mapsto> \<lparr>key = 5, element = 0\<rparr>] 5 []"

definition cs_five :: "nat \<Rightarrow> nat entry list" where
  "cs_five = (\<lambda>i. [])(5 := [\<lparr>e_node = 3, e_pair = 4, e_key = 5\<rparr>])"

section \<open>Properties of the loops\<close>

lemma new_entry_Bucket:
  assumes "arrays s a = Some xs" "i < length xs"
  shows "\<exists>s'. new_entry s (Bucket a i) k = Inr s' \<and> brk s' = Suc (Suc (brk s)) \<and>
     tables s' = tables s \<and> world s' = world s \<and>
     pairs s' = (pairs s)(Suc (brk s) \<mapsto> \<lparr>key = k, element = 0\<rparr>) \<and>
     nodes s' = (nodes s)(brk s \<mapsto> \<lparr>next' = 0, pair = Suc (brk s)\<rparr>) \<and>
     arrays s' = (arrays s)(a \<mapsto> xs[i := brk s])"
  using assms by (simp add: new_entry_def malloc_def store_def)

lemma new_entry_Next:
  assumes "nodes s m = Some nd" "m \<noteq> brk s"
  shows "\<exists>s'. new_entry s (Next m) k = Inr s' \<and> brk s' = Suc (Suc (brk s)) \<and>
     tables s' = tables s \<and> world s' = world s \<and>
     pairs s' = (pairs s)(Suc (brk s) \<mapsto> \<lparr>key = k, element = 0\<rparr>) \<and>
     nodes s' = (nodes s)(brk s \<mapsto> \<lparr>next' = 0, pair = Suc (brk s)\<rparr>,
                           m \<mapsto> nd\<lparr>next' := brk s\<rparr>) \<and>
     arrays s' = arrays s"
  using assms by (simp add: new_entry_def malloc_def store_def)

lemma new_entry_step:
  assumes "load s cl = Inr p" "cl \<noteq> Next (brk s)"
  shows "\<exists>s1. new_entry s cl k = Inr s1 \<and> load s1 cl = Inr (brk s) \<and>
     node_key s1 (brk s) = Inr k \<and> tables s1 = tables s \<and>
     load s1 (Next (brk s)) = Inr 0 \<and> brk s1 = Suc (Suc (brk s))"
proof (cases cl)
  case (Bucket a i)
  with assms obtain xs where xs: "arrays s a = Some xs" "i < length xs"
    by (auto simp: load_def split: option.splits if_splits)
  from new_entry_Bucket[OF xs, of k] Bucket xs show ?thesis
    by (auto simp: load_def node_key_def)
next
  case (Next m)
  with assms obtain nd where nd: "nodes s m = Some nd" "m \<noteq> brk s"
    by (auto simp: load_def split: option.splits)
  from new_entry_Next[OF nd, of k] Next nd show ?thesis
    by (auto simp: load_def node_key_def)
qed

lemma At_loop_no_return:
  assumes "At_loop s hashTable k cl = Some y"
  shows "\<not> (tables s hashTable = Some t \<and> cmp t = Some c \<and> c k k \<noteq> 0 \<and>
         load s cl = Inr 0 \<and> cl \<noteq> Next (brk s))"
proof (rule At_loop.raw_induct[where P = "\<lambda>s hashTable k cl y.
         \<not> (tables s hashTable = Some t \<and> cmp t = Some c \<and> c k k \<noteq> 0 \<and>
         load s cl = Inr 0 \<and> cl \<noteq> Next (brk s))", OF _ assms], goal_cases)
  case (1 loop s hashTable k nxt y)
  show ?case
  proof
    assume "tables s hashTable = Some t \<and> cmp t = Some c \<and> c k k \<noteq> 0 \<and>
         load s nxt = Inr 0 \<and> nxt \<noteq> Next (brk s)"
    then have t: "tables s hashTable = Some t" and c: "cmp t = Some c" and kk: "c k k \<noteq> 0"
      and ld: "load s nxt = Inr 0" and fresh: "nxt \<noteq> Next (brk s)" by simp_all
    from new_entry_step[OF ld fresh, of k] obtain s1 where s1:
      "new_entry s nxt k = Inr s1" "load s1 nxt = Inr (brk s)" "node_key s1 (brk s) = Inr k"
      "tables s1 = tables s" "load s1 (Next (brk s)) = Inr 0" "brk s1 = Suc (Suc (brk s))"
      by blast
    have cc: "call_cmp s1 hashTable k k = Inr (c k k)"
      using t c s1(4) by (simp add: call_cmp_def)
    from 1(2) ld s1 cc kk have "loop s1 hashTable k (Next (brk s)) = Some y"
      by simp
    from 1(1)[OF this] t c kk s1 show False by simp
  qed
qed

lemma At_loop_diverges:
  assumes "tables s hashTable = Some t" "cmp t = Some c" "c k k \<noteq> 0"
    "load s cl = Inr 0" "cl \<noteq> Next (brk s)"
  shows "At_loop s hashTable k cl = None"
proof (cases "At_loop s hashTable k cl")
  case None then show ?thesis .
next
  case (Some y)
  from At_loop_no_return[OF Some, of t c] assms show ?thesis by simp
qed


lemma chain_ConsD:
  "chain s p (x # es) \<Longrightarrow>
   \<exists>nd. p = e_node x \<and> p \<noteq> 0 \<and> chain s (next' nd) es \<and> node_key s p = Inr (e_key x) \<and>
     load s (Next p) = Inr (next' nd) \<and> nodes s p = Some nd \<and> pair nd = e_pair x"
  by (auto simp: node_key_def load_def split: option.splits)

lemma At_loop_step:
  assumes "tables s hashTable = Some t" "cmp t = Some c"
    "load s cl = Inr p" "p \<noteq> 0" "node_key s p = Inr kp"
  shows "At_loop s hashTable k cl =
     (if c k kp \<noteq> 0 then At_loop s hashTable k (Next p) else Some (Inr (s, cl)))"
  using assms by (subst At_loop.simps) (simp add: call_cmp_def)

lemma At_loop_step_null:
  assumes "tables s hashTable = Some t" "cmp t = Some c"
    "load s cl = Inr 0" "cl \<noteq> Next (brk s)"
  shows "\<exists>s1. new_entry s cl k = Inr s1 \<and> At_loop s hashTable k cl =
     (if c k k \<noteq> 0 then At_loop s1 hashTable k (Next (brk s)) else Some (Inr (s1, cl)))"
proof -
  from new_entry_step[OF assms(3,4), of k] obtain s1 where s1:
    "new_entry s cl k = Inr s1" "load s1 cl = Inr (brk s)" "node_key s1 (brk s) = Inr k"
    "tables s1 = tables s" by blast
  have "At_loop s hashTable k cl =
     (if c k k \<noteq> 0 then At_loop s1 hashTable k (Next (brk s)) else Some (Inr (s1, cl)))"
    using assms s1 by (subst At_loop.simps) (simp add: call_cmp_def)
  with s1(1) show ?thesis by blast
qed

lemma At_loop_found:
  assumes t: "tables s hashTable = Some t" "cmp t = Some c"
  shows "chain s p es \<Longrightarrow> load s cl = Inr p \<Longrightarrow> lookup_entry c k es = Some e \<Longrightarrow>
     \<exists>list. At_loop s hashTable k cl = Some (Inr (s, list)) \<and> load s list = Inr (e_node e)"
proof (induction es arbitrary: p cl)
  case Nil
  then show ?case by (simp add: lookup_entry_def)
next
  case (Cons x es)
  from chain_ConsD[OF Cons.prems(1)] obtain nd :: HashList where x: "p = e_node x" "p \<noteq> 0"
    "chain s (next' nd) es" "node_key s p = Inr (e_key x)" "load s (Next p) = Inr (next' nd)"
    by blast
  note step = At_loop_step[OF t Cons.prems(2) x(2) x(4), of k]
  show ?case
  proof (cases "c k (e_key x) = 0")
    case True
    with Cons.prems(3) have "e = x" by (simp add: lookup_entry_def)
    with step True Cons.prems(2) x(1) show ?thesis by simp
  next
    case False
    with Cons.prems(3) have "lookup_entry c k es = Some e" by (simp add: lookup_entry_def)
    from Cons.IH[OF x(3) x(5) this] step False show ?thesis by simp
  qed
qed

lemma At_loop_insert:
  assumes t: "tables s hashTable = Some t" "cmp t = Some c" and kk: "c k k = 0"
  shows "chain s p es \<Longrightarrow> load s cl = Inr p \<Longrightarrow> lookup_entry c k es = None \<Longrightarrow>
     tail_cell cl es \<noteq> Next (brk s) \<Longrightarrow>
     \<exists>s1. new_entry s (tail_cell cl es) k = Inr s1 \<and>
          At_loop s hashTable k cl = Some (Inr (s1, tail_cell cl es)) \<and>
          load s (tail_cell cl es) = Inr 0"
proof (induction es arbitrary: p cl)
  case Nil
  then have ld: "load s cl = Inr 0" and fr: "cl \<noteq> Next (brk s)" by simp_all
  from At_loop_step_null[OF t ld fr, of k] kk ld show ?case by auto
next
  case (Cons x es)
  from chain_ConsD[OF Cons.prems(1)] obtain nd :: HashList where x: "p = e_node x" "p \<noteq> 0"
    "chain s (next' nd) es" "node_key s p = Inr (e_key x)" "load s (Next p) = Inr (next' nd)"
    by blast
  note step = At_loop_step[OF t Cons.prems(2) x(2) x(4), of k]
  from Cons.prems(3) have ne: "c k (e_key x) \<noteq> 0" and rest: "lookup_entry c k es = None"
    by (auto simp: lookup_entry_def split: if_splits)
  from Cons.prems(4) x(1) have "tail_cell (Next p) es \<noteq> Next (brk s)" by simp
  from Cons.IH[OF x(3) x(5) rest this] step ne x(1) show ?case by simp
qed

lemma At_loop_absent_diverges:
  assumes t: "tables s hashTable = Some t" "cmp t = Some c" and kk: "c k k \<noteq> 0"
  shows "chain s p es \<Longrightarrow> load s cl = Inr p \<Longrightarrow> lookup_entry c k es = None \<Longrightarrow>
     tail_cell cl es \<noteq> Next (brk s) \<Longrightarrow> At_loop s hashTable k cl = None"
proof (induction es arbitrary: p cl)
  case Nil
  then have ld: "load s cl = Inr 0" and fr: "cl \<noteq> Next (brk s)" by simp_all
  from At_loop_diverges[OF t kk ld fr] show ?case .
next
  case (Cons x es)
  from chain_ConsD[OF Cons.prems(1)] obtain nd :: HashList where x: "p = e_node x" "p \<noteq> 0"
    "chain s (next' nd) es" "node_key s p = Inr (e_key x)" "load s (Next p) = Inr (next' nd)"
    by blast
  note step = At_loop_step[OF t Cons.prems(2) x(2) x(4), of k]
  from Cons.prems(3) have ne: "c k (e_key x) \<noteq> 0" and rest: "lookup_entry c k es = None"
    by (auto simp: lookup_entry_def split: if_splits)
  from Cons.prems(4) x(1) have "tail_cell (Next p) es \<noteq> Next (brk s)" by simp
  from Cons.IH[OF x(3) x(5) rest this] step ne show ?case by simp
qed

lemma Has_loop_chain:
  assumes t: "tables s hashTable = Some t" "cmp t = Some c"
  shows "chain s p es \<Longrightarrow> load s cl = Inr p \<Longrightarrow>
     \<exists>list. Has_loop s hashTable k cl = Some (Inr list) \<and>
       load s list = Inr (case lookup_entry c k es of None \<Rightarrow> 0 | Some e \<Rightarrow> e_node e)"
proof (induction es arbitrary: p cl)
  case Nil
  then have "load s cl = Inr 0" by simp
  then have "Has_loop s hashTable k cl = Some (Inr cl)"
    by (subst Has_loop.simps) simp
  with \<open>load s cl = Inr 0\<close> show ?case by (simp add: lookup_entry_def)
next
  case (Cons x es)
  from chain_ConsD[OF Cons.prems(1)] obtain nd :: HashList where x: "p = e_node x" "p \<noteq> 0"
    "chain s (next' nd) es" "node_key s p = Inr (e_key x)" "load s (Next p) = Inr (next' nd)"
    by blast
  have step: "Has_loop s hashTable k cl =
     (if c k (e_key x) \<noteq> 0 then Has_loop s hashTable k (Next p) else Some (Inr cl))"
    using t Cons.prems(2) x(2,4) by (subst Has_loop.simps) (simp add: call_cmp_def)
  show ?case
  proof (cases "c k (e_key x) = 0")
    case True
    with step Cons.prems(2) x(1) show ?thesis by (simp add: lookup_entry_def)
  next
    case False
    from Cons.IH[OF x(3) x(5)] step False show ?thesis by (simp add: lookup_entry_def)
  qed
qed


lemma chain_frame:
  "chain s p es \<Longrightarrow>
   (\<And>e. e \<in> set es \<Longrightarrow> nodes s' (e_node e) = nodes s (e_node e) \<and>
        map_option key (pairs s' (e_pair e)) = map_option key (pairs s (e_pair e))) \<Longrightarrow>
   chain s' p es"
proof (induction es arbitrary: p)
  case Nil then show ?case by simp
next
  case (Cons e es)
  from Cons.prems(1) obtain nd :: HashList and pr :: "'a HashPair"
    where nd: "p = e_node e" "p \<noteq> 0" "nodes s p = Some nd"
    "pair nd = e_pair e" "pairs s (e_pair e) = Some pr" "key pr = e_key e" "chain s (next' nd) es"
    by (auto split: option.splits)
  have a: "nodes s' (e_node e) = nodes s (e_node e)"
    and b: "map_option key (pairs s' (e_pair e)) = map_option key (pairs s (e_pair e))"
    using Cons.prems(2)[of e] by simp_all
  from b nd obtain pr' where pr': "pairs s' (e_pair e) = Some pr'" "key pr' = e_key e"
    by (cases "pairs s' (e_pair e)") auto
  have "chain s' (next' nd) es"
    by (rule Cons.IH[OF nd(7)]) (use Cons.prems(2) in auto)
  with nd a pr' show ?case by simp
qed

lemma chain_mem:
  "chain s p es \<Longrightarrow> e \<in> set es \<Longrightarrow>
   e_node e \<noteq> 0 \<and> (\<exists>nd pr. nodes s (e_node e) = Some nd \<and> pair nd = e_pair e \<and>
      pairs s (e_pair e) = Some pr \<and> key pr = e_key e)"
  by (induction es arbitrary: p) (auto split: option.splits)

lemma tail_cell_eq:
  "tail_cell cl es = (if es = [] then cl else Next (e_node (last es)))"
  by (induction es arbitrary: cl) auto

lemma chain_snoc:
  assumes "chain s p es" "es \<noteq> []" "distinct (map e_node es)"
    and other: "\<And>e. e \<in> set es \<Longrightarrow> e_node e \<noteq> e_node (last es) \<Longrightarrow>
                 nodes s1 (e_node e) = nodes s (e_node e)"
    and prs: "\<And>e. e \<in> set es \<Longrightarrow> pairs s1 (e_pair e) = pairs s (e_pair e)"
    and lst: "\<And>nd. nodes s (e_node (last es)) = Some nd \<Longrightarrow>
                 nodes s1 (e_node (last es)) = Some (nd\<lparr>next' := b\<rparr>)"
    and new: "chain s1 b [e']"
  shows "chain s1 p (es @ [e'])"
  using assms(1-6)
proof (induction es arbitrary: p)
  case Nil then show ?case by simp
next
  case (Cons x es)
  from chain_ConsD[OF Cons.prems(1)] obtain nd :: HashList where x: "p = e_node x" "p \<noteq> 0"
    "chain s (next' nd) es" "nodes s p = Some nd" "pair nd = e_pair x" by blast
  from Cons.prems(1) obtain pr where pr: "pairs s (e_pair x) = Some pr" "key pr = e_key x"
    by (auto split: option.splits)
  have pr1: "pairs s1 (e_pair x) = Some pr" using Cons.prems(5)[of x] pr by simp
  show ?case
  proof (cases "es = []")
    case True
    with x have "next' nd = 0" by simp
    from Cons.prems(6)[of nd] True x have "nodes s1 p = Some (nd\<lparr>next' := b\<rparr>)" by simp
    with True x pr1 pr new show ?thesis by auto
  next
    case False
    with Cons.prems(3) have ne: "e_node x \<noteq> e_node (last (x # es))" by auto
    from Cons.prems(4)[of x] ne x have n1: "nodes s1 p = Some nd" by simp
    have "chain s1 (next' nd) (es @ [e'])"
    proof (rule Cons.IH[OF x(3) False])
      show "distinct (map e_node es)" using Cons.prems(3) by simp
      show "\<And>e. e \<in> set es \<Longrightarrow> e_node e \<noteq> e_node (last es) \<Longrightarrow>
                 nodes s1 (e_node e) = nodes s (e_node e)"
        using Cons.prems(4) False by simp
      show "\<And>e. e \<in> set es \<Longrightarrow> pairs s1 (e_pair e) = pairs s (e_pair e)"
        using Cons.prems(5) by simp
      show "\<And>nd. nodes s (e_node (last es)) = Some nd \<Longrightarrow>
                 nodes s1 (e_node (last es)) = Some (nd\<lparr>next' := b\<rparr>)"
        using Cons.prems(6) False by simp
    qed
    with x n1 pr1 pr show ?thesis by simp
  qed
qed

lemma entries_split:
  assumes "i < HASHSIZE"
  shows "entries cs = concat (map cs [0..<i]) @ cs i @ concat (map cs [Suc i..<HASHSIZE])"
proof -
  have "[0..<HASHSIZE] = [0..<i] @ [i] @ [Suc i..<HASHSIZE]"
    using assms by (metis append_Cons append_Nil le_add2 le_add_same_cancel2 less_imp_add_positive upt_add_eq_append upt_rec)
  then show ?thesis by (simp add: entries_def)
qed

lemma entries_upd:
  assumes "i < HASHSIZE"
  shows "entries (cs(i := ys)) =
     concat (map cs [0..<i]) @ ys @ concat (map cs [Suc i..<HASHSIZE])"
proof -
  have a: "map (cs(i := ys)) [0..<i] = map cs [0..<i]" by simp
  have b: "map (cs(i := ys)) [Suc i..<HASHSIZE] = map cs [Suc i..<HASHSIZE]" by simp
  from entries_split[OF assms, of "cs(i := ys)"] a b show ?thesis by simp
qed

lemma set_entries: "set (entries cs) = (\<Union>i<HASHSIZE. set (cs i))"
  by (auto simp: entries_def)

section \<open>Lookup and insertion on a ready table\<close>

lemma wf_tableE:
  assumes "wf_table s hashTable cs"
  obtains t :: "('k, 'w) HashTable" and c h arr where
    "tables s hashTable = Some t" "cmp t = Some c" "hash t = Some h"
    "arrays s (hashListArr t) = Some arr" "length arr = HASHSIZE"
    "hashTable \<noteq> 0" "0 < brk s"
    "\<And>i. i < HASHSIZE \<Longrightarrow> chain s (arr ! i) (cs i)"
    "\<And>e. e \<in> set (entries cs) \<Longrightarrow> e_node e < brk s \<and> e_pair e < brk s"
    "distinct (map e_node (entries cs))" "distinct (map e_pair (entries cs))"
    "null_free s"
  using assms unfolding wf_table_def
  by (auto split: option.splits)

lemma concat_map_apart:
  "distinct (map f (concat (map cs js))) \<Longrightarrow> distinct js \<Longrightarrow> i \<in> set js \<Longrightarrow> j \<in> set js \<Longrightarrow>
   i \<noteq> j \<Longrightarrow> x \<in> set (cs i) \<Longrightarrow> y \<in> set (cs j) \<Longrightarrow> f x \<noteq> f y"
  by (induction js) (auto)

lemma entries_apart:
  assumes "distinct (map f (entries cs))" "i < HASHSIZE" "j < HASHSIZE" "i \<noteq> j"
    "x \<in> set (cs i)" "y \<in> set (cs j)"
  shows "f x \<noteq> f y"
  using concat_map_apart[of f cs "[0..<HASHSIZE]" i j x y] assms
  by (simp add: entries_def)

lemma entries_bucket_distinct:
  assumes "distinct (map f (entries cs))" "i < HASHSIZE"
  shows "distinct (map f (cs i))"
  using assms entries_split[OF assms(2), of cs] by simp

lemma bucket_in_entries: "i < HASHSIZE \<Longrightarrow> e \<in> set (cs i) \<Longrightarrow> e \<in> set (entries cs)"
  by (auto simp: set_entries)


lemma wf_tableI:
  fixes t :: "('k, 'w) HashTable"
  assumes "tables s hashTable = Some t" "cmp t = Some c" "hash t = Some h"
    "arrays s (hashListArr t) = Some arr" "length arr = HASHSIZE"
    "hashTable \<noteq> 0" "0 < brk s"
    "\<And>i. i < HASHSIZE \<Longrightarrow> chain s (arr ! i) (cs i)"
    "\<And>e. e \<in> set (entries cs) \<Longrightarrow> e_node e < brk s \<and> e_pair e < brk s"
    "distinct (map e_node (entries cs))" "distinct (map e_pair (entries cs))"
    "null_free s"
  shows "wf_table s hashTable cs"
  using assms unfolding wf_table_def by simp

lemma new_entry_fields:
  fixes t :: "('k, 'w) HashTable"
  assumes wf: "wf_table s hashTable cs" and t: "tables s hashTable = Some t"
    and arr: "arrays s (hashListArr t) = Some arr"
    and i: "i < HASHSIZE"
    and ne: "new_entry s (tail_cell (Bucket (hashListArr t) i) (cs i)) k = Inr s1"
  shows "brk s1 = Suc (Suc (brk s))" "tables s1 = tables s" "world s1 = world s"
    "pairs s1 = (pairs s)(Suc (brk s) \<mapsto> \<lparr>key = k, element = 0\<rparr>)"
    "nodes s1 (brk s) = Some \<lparr>next' = 0, pair = Suc (brk s)\<rparr>"
    "\<And>n. n \<noteq> brk s \<Longrightarrow> cs i = [] \<or> n \<noteq> e_node (last (cs i)) \<Longrightarrow> nodes s1 n = nodes s n"
    "\<And>nd. cs i \<noteq> [] \<Longrightarrow> nodes s (e_node (last (cs i))) = Some nd \<Longrightarrow>
        nodes s1 (e_node (last (cs i))) = Some (nd\<lparr>next' := brk s\<rparr>)"
    "arrays s1 (hashListArr t) = Some (if cs i = [] then arr[i := brk s] else arr)"
proof -
  from wf obtain t' :: "('k, 'w) HashTable" and c h arr' where w0:
    "tables s hashTable = Some t'" "cmp t' = Some c" "hash t' = Some h"
    "arrays s (hashListArr t') = Some arr'" "length arr' = HASHSIZE"
    "hashTable \<noteq> 0" "0 < brk s"
    "\<And>i. i < HASHSIZE \<Longrightarrow> chain s (arr' ! i) (cs i)"
    "\<And>e. e \<in> set (entries cs) \<Longrightarrow> e_node e < brk s \<and> e_pair e < brk s"
    "distinct (map e_node (entries cs))" "distinct (map e_pair (entries cs))"
    by (rule wf_tableE) (rule that, assumption+)
  from w0 t arr have [simp]: "t' = t" "arr' = arr" by simp_all
  note w = w0(1,4,5,8,9)
  have all: "brk s1 = Suc (Suc (brk s)) \<and> tables s1 = tables s \<and> world s1 = world s \<and>
    pairs s1 = (pairs s)(Suc (brk s) \<mapsto> \<lparr>key = k, element = 0\<rparr>) \<and>
    nodes s1 (brk s) = Some \<lparr>next' = 0, pair = Suc (brk s)\<rparr> \<and>
    (\<forall>n. n \<noteq> brk s \<longrightarrow> cs i = [] \<or> n \<noteq> e_node (last (cs i)) \<longrightarrow> nodes s1 n = nodes s n) \<and>
    (\<forall>nd. cs i \<noteq> [] \<longrightarrow> nodes s (e_node (last (cs i))) = Some nd \<longrightarrow>
        nodes s1 (e_node (last (cs i))) = Some (nd\<lparr>next' := brk s\<rparr>)) \<and>
    arrays s1 (hashListArr t) = Some (if cs i = [] then arr[i := brk s] else arr)"
  proof (cases "cs i = []")
    case True
    have "i < length arr" using w(3) i by simp
    from new_entry_Bucket[OF arr this, of k] ne True show ?thesis
      by (auto simp: tail_cell_eq)
  next
    case False
    define m where "m = e_node (last (cs i))"
    have mem: "last (cs i) \<in> set (cs i)" using False by simp
    from chain_mem[OF w(4)[OF i] mem] obtain nd :: HashList where nd: "nodes s m = Some nd"
      by (auto simp: m_def)
    have "m < brk s" using w(5)[of "last (cs i)"] mem i by (auto simp: m_def set_entries)
    then have "m \<noteq> brk s" by simp
    from new_entry_Next[OF nd this, of k] ne False nd \<open>m \<noteq> brk s\<close> arr show ?thesis
      by (auto simp: tail_cell_eq m_def[symmetric])
  qed
  from all show "brk s1 = Suc (Suc (brk s))" "tables s1 = tables s" "world s1 = world s"
    "pairs s1 = (pairs s)(Suc (brk s) \<mapsto> \<lparr>key = k, element = 0\<rparr>)"
    "nodes s1 (brk s) = Some \<lparr>next' = 0, pair = Suc (brk s)\<rparr>"
    "arrays s1 (hashListArr t) = Some (if cs i = [] then arr[i := brk s] else arr)"
    by simp_all
  from all show "\<And>n. n \<noteq> brk s \<Longrightarrow> cs i = [] \<or> n \<noteq> e_node (last (cs i)) \<Longrightarrow>
      nodes s1 n = nodes s n" by blast
  from all show "\<And>nd. cs i \<noteq> [] \<Longrightarrow> nodes s (e_node (last (cs i))) = Some nd \<Longrightarrow>
        nodes s1 (e_node (last (cs i))) = Some (nd\<lparr>next' := brk s\<rparr>)" by blast
qed


lemma wf_null_free: "wf_table s hashTable cs \<Longrightarrow> null_free s"
  by (simp add: wf_table_def)

lemma wf_table_ready: "wf_table s hashTable cs \<Longrightarrow> HashTable_Ready s hashTable = Inr True"
  by (auto simp: wf_table_def HashTable_Ready_def split: option.splits)

lemma live_not_null: "m (0 :: nat) = None \<Longrightarrow> m a = Some x \<Longrightarrow> 0 < a"
  by (cases "a = 0") auto

lemma new_entry_null_free:
  assumes "null_free s" "0 < brk s" "new_entry s cl k = Inr s1"
  shows "null_free s1"
proof (cases cl)
  case (Bucket a i)
  with assms show ?thesis
    by (auto simp: new_entry_def malloc_def store_def null_free_def Let_def
        split: option.splits if_splits intro: live_not_null)
next
  case (Next n)
  with assms show ?thesis
    by (auto simp: new_entry_def malloc_def store_def null_free_def Let_def
        split: option.splits if_splits intro: live_not_null)
qed

lemma new_entry_wf:
  fixes t :: "('k, 'w) HashTable"
  assumes wf: "wf_table s hashTable cs" and t: "tables s hashTable = Some t"
    and i: "i < HASHSIZE"
    and ne: "new_entry s (tail_cell (Bucket (hashListArr t) i) (cs i)) k = Inr s1"
  shows "wf_table s1 hashTable (cs(i := cs i @ [new_e s k]))"
proof -
  from wf obtain t' :: "('k, 'w) HashTable" and c h arr where w0:
    "tables s hashTable = Some t'" "cmp t' = Some c" "hash t' = Some h"
    "arrays s (hashListArr t') = Some arr" "length arr = HASHSIZE"
    "hashTable \<noteq> 0" "0 < brk s"
    "\<And>i. i < HASHSIZE \<Longrightarrow> chain s (arr ! i) (cs i)"
    "\<And>e. e \<in> set (entries cs) \<Longrightarrow> e_node e < brk s \<and> e_pair e < brk s"
    "distinct (map e_node (entries cs))" "distinct (map e_pair (entries cs))"
    by (rule wf_tableE) (rule that, assumption+)
  from w0 t have [simp]: "t' = t" by simp
  have arr: "arrays s (hashListArr t) = Some arr" using w0(4) by simp
  note f = new_entry_fields[OF wf t arr i ne]
  define b where "b = brk s"
  define e' where "e' = new_e s k"
  define arr1 where "arr1 = (if cs i = [] then arr[i := b] else arr)"
  have e': "e_node e' = b" "e_pair e' = Suc b" "e_key e' = k"
    by (simp_all add: e'_def new_e_def b_def)
  have bnd: "\<And>e. e \<in> set (entries cs) \<Longrightarrow> e_node e < b \<and> e_pair e < b"
    using w0(9) by (simp add: b_def)
  have bndi: "\<And>e j. j < HASHSIZE \<Longrightarrow> e \<in> set (cs j) \<Longrightarrow> e_node e < b \<and> e_pair e < b"
    using bnd by (auto simp: set_entries)
  have b0: "0 < b" using w0(7) by (simp add: b_def)
  have new: "chain s1 b [e']"
    using f(4,5) b0 e' by (simp add: b_def)
  have prs: "\<And>e j. j < HASHSIZE \<Longrightarrow> e \<in> set (cs j) \<Longrightarrow> pairs s1 (e_pair e) = pairs s (e_pair e)"
  proof -
    fix e j assume "j < HASHSIZE" "e \<in> set (cs j)"
    from bndi[OF this] have "e_pair e \<noteq> Suc b" by simp
    then show "pairs s1 (e_pair e) = pairs s (e_pair e)" using f(4) by (simp add: b_def)
  qed
  have chi: "chain s1 (arr1 ! i) (cs i @ [e'])"
  proof (cases "cs i = []")
    case True
    with new i w0(5) show ?thesis by (simp add: arr1_def del: chain.simps)
  next
    case False
    have "chain s1 (arr ! i) (cs i @ [e'])"
    proof (rule chain_snoc[OF w0(8)[OF i] False entries_bucket_distinct[OF w0(10) i] _ _ _ new])
      fix e assume e: "e \<in> set (cs i)" "e_node e \<noteq> e_node (last (cs i))"
      from bndi[OF i e(1)] have "e_node e \<noteq> brk s" by (simp add: b_def)
      from f(6)[OF this] e(2) show "nodes s1 (e_node e) = nodes s (e_node e)" by simp
    next
      fix e assume "e \<in> set (cs i)"
      from prs[OF i this] show "pairs s1 (e_pair e) = pairs s (e_pair e)" .
    next
      fix nd :: HashList assume "nodes s (e_node (last (cs i))) = Some nd"
      from f(7)[OF False this] show "nodes s1 (e_node (last (cs i))) = Some (nd\<lparr>next' := b\<rparr>)"
        by (simp add: b_def)
    qed
    with False show ?thesis by (simp add: arr1_def)
  qed
  have chj: "\<And>j. j < HASHSIZE \<Longrightarrow> j \<noteq> i \<Longrightarrow> chain s1 (arr1 ! j) (cs j)"
  proof -
    fix j assume j: "j < HASHSIZE" "j \<noteq> i"
    have "chain s1 (arr ! j) (cs j)"
    proof (rule chain_frame[OF w0(8)[OF j(1)]])
      fix e assume e: "e \<in> set (cs j)"
      from bndi[OF j(1) e] have nb: "e_node e \<noteq> brk s" by (simp add: b_def)
      have "cs i = [] \<or> e_node e \<noteq> e_node (last (cs i))"
      proof (cases "cs i = []")
        case True then show ?thesis by simp
      next
        case False
        then have "last (cs i) \<in> set (cs i)" by simp
        from entries_apart[OF w0(10) j(1) i j(2) e this] show ?thesis by simp
      qed
      from f(6)[OF nb this] prs[OF j(1) e]
      show "nodes s1 (e_node e) = nodes s (e_node e) \<and>
        map_option key (pairs s1 (e_pair e)) = map_option key (pairs s (e_pair e))" by simp
    qed
    with j show "chain s1 (arr1 ! j) (cs j)" by (simp add: arr1_def)
  qed
  have ent: "entries (cs(i := cs i @ [e'])) =
     concat (map cs [0..<i]) @ (cs i @ [e']) @ concat (map cs [Suc i..<HASHSIZE])"
    by (rule entries_upd[OF i])
  note old = entries_split[OF i, of cs]
  have fresh_n: "b \<notin> e_node ` set (entries cs)" using bnd by fastforce
  have fresh_p: "Suc b \<notin> e_pair ` set (entries cs)" using bnd by fastforce
  show ?thesis
  proof (rule wf_tableI[where arr = arr1 and t = t and c = c and h = h])
    show "tables s1 hashTable = Some t" using f(2) t by simp
    show "cmp t = Some c" using w0(2) by simp
    show "hash t = Some h" using w0(3) by simp
    show "arrays s1 (hashListArr t) = Some arr1" using f(8) by (simp add: arr1_def b_def)
    show "length arr1 = HASHSIZE" using w0(5) by (simp add: arr1_def)
    show "hashTable \<noteq> 0" by (rule w0(6))
    show "0 < brk s1" using f(1) by simp
    show "\<And>j. j < HASHSIZE \<Longrightarrow> chain s1 (arr1 ! j) ((cs(i := cs i @ [new_e s k])) j)"
      using chi chj by (simp add: e'_def)
    show "\<And>e. e \<in> set (entries (cs(i := cs i @ [new_e s k]))) \<Longrightarrow>
        e_node e < brk s1 \<and> e_pair e < brk s1"
    proof -
      fix e assume "e \<in> set (entries (cs(i := cs i @ [new_e s k])))"
      then have "e = e' \<or> e \<in> set (entries cs)"
        unfolding e'_def[symmetric] ent old by auto
      then show "e_node e < brk s1 \<and> e_pair e < brk s1"
        using bnd[of e] e' f(1) by (auto simp: b_def)
    qed
    show "distinct (map e_node (entries (cs(i := cs i @ [new_e s k]))))"
      using w0(10) fresh_n unfolding e'_def[symmetric] ent old by (auto simp: e')
    show "distinct (map e_pair (entries (cs(i := cs i @ [new_e s k]))))"
      using w0(11) fresh_p unfolding e'_def[symmetric] ent old by (auto simp: e')
    show "null_free s1"
      by (rule new_entry_null_free[OF wf_null_free[OF wf] w0(7) ne])
  qed
qed


lemma wf_table_strategies:
  fixes t :: "('k, 'w) HashTable"
  assumes "tables s hashTable = Some t" "cmp t = Some c" "hash t = Some h"
  shows "table_cmp s hashTable = c" "table_hash s hashTable = h"
    "bucket_of s hashTable k = unat (h k) mod HASHSIZE"
    "call_hash s hashTable k = Inr (h k)"
    "bucket_cell s hashTable (h k) = Inr (Bucket (hashListArr t) (unat (h k) mod HASHSIZE))"
  using assms
  by (simp_all add: table_cmp_def table_hash_def bucket_of_def call_hash_def bucket_cell_def)

lemma bucket_of_less: "bucket_of s hashTable k < HASHSIZE"
  by (simp add: bucket_of_def HASHSIZE_def)

lemma HashTable_At_found:
  fixes s :: "('k, 'w) memory"
  assumes wf: "wf_table s hashTable cs"
    and lk: "lookup_entry (table_cmp s hashTable) k (cs (bucket_of s hashTable k)) = Some e"
  shows "HashTable_At s hashTable k = Some (Inr (s, Element_of (e_pair e)))"
proof -
  from wf obtain t :: "('k, 'w) HashTable" and c h arr where w0:
    "tables s hashTable = Some t" "cmp t = Some c" "hash t = Some h"
    "arrays s (hashListArr t) = Some arr" "length arr = HASHSIZE"
    "hashTable \<noteq> 0" "0 < brk s"
    "\<And>i. i < HASHSIZE \<Longrightarrow> chain s (arr ! i) (cs i)"
    "\<And>e. e \<in> set (entries cs) \<Longrightarrow> e_node e < brk s \<and> e_pair e < brk s"
    "distinct (map e_node (entries cs))" "distinct (map e_pair (entries cs))"
    by (rule wf_tableE) (rule that, assumption+)
  note st = wf_table_strategies[OF w0(1-3)]
  define i where "i = unat (h k) mod HASHSIZE"
  have i: "i < HASHSIZE" by (simp add: i_def HASHSIZE_def)
  have ld: "load s (Bucket (hashListArr t) i) = Inr (arr ! i)"
    using w0(4,5) i by (simp add: load_def)
  from lk have lk': "lookup_entry c k (cs i) = Some e" by (simp add: st i_def)
  from At_loop_found[OF w0(1,2) w0(8)[OF i] ld lk'] obtain list where
    l: "At_loop s hashTable k (Bucket (hashListArr t) i) = Some (Inr (s, list))"
       "load s list = Inr (e_node e)" by blast
  from lk' have "e \<in> set (cs i)"
    by (auto simp: lookup_entry_def find_Some_iff)
  from chain_mem[OF w0(8)[OF i] this] l(2)
  have "element_ref s list = Inr (Element_of (e_pair e))"
    by (auto simp: element_ref_def)
  with l(1) show ?thesis
    by (simp add: HashTable_At_def st i_def[symmetric])
qed

lemma wf_tail_cell_fresh:
  fixes t :: "('k, 'w) HashTable"
  assumes "wf_table s hashTable cs" "i < HASHSIZE"
  shows "tail_cell (Bucket a i) (cs i) \<noteq> Next (brk s)"
proof (cases "cs i = []")
  case True then show ?thesis by simp
next
  case False
  then have "last (cs i) \<in> set (entries cs)"
    using assms(2) by (simp add: bucket_in_entries)
  with assms(1) have "e_node (last (cs i)) < brk s"
    by (auto elim: wf_tableE)
  with False show ?thesis by (simp add: tail_cell_eq)
qed

lemma HashTable_At_insert:
  fixes s :: "('k, 'w) memory"
  assumes wf: "wf_table s hashTable cs"
    and lk: "lookup_entry (table_cmp s hashTable) k (cs (bucket_of s hashTable k)) = None"
    and kk: "table_cmp s hashTable k k = 0"
  shows "\<exists>s1. HashTable_At s hashTable k = Some (Inr (s1, Element_of (Suc (brk s)))) \<and>
     wf_table s1 hashTable
       ((cs)(bucket_of s hashTable k := cs (bucket_of s hashTable k) @ [new_e s k])) \<and>
     brk s1 = Suc (Suc (brk s)) \<and> tables s1 = tables s \<and> world s1 = world s \<and>
     pairs s1 = (pairs s)(Suc (brk s) \<mapsto> \<lparr>key = k, element = 0\<rparr>)"
proof -
  from wf obtain t :: "('k, 'w) HashTable" and c h arr where w0:
    "tables s hashTable = Some t" "cmp t = Some c" "hash t = Some h"
    "arrays s (hashListArr t) = Some arr" "length arr = HASHSIZE"
    "hashTable \<noteq> 0" "0 < brk s"
    "\<And>i. i < HASHSIZE \<Longrightarrow> chain s (arr ! i) (cs i)"
    "\<And>e. e \<in> set (entries cs) \<Longrightarrow> e_node e < brk s \<and> e_pair e < brk s"
    "distinct (map e_node (entries cs))" "distinct (map e_pair (entries cs))"
    by (rule wf_tableE) (rule that, assumption+)
  note st = wf_table_strategies[OF w0(1-3)]
  define i where "i = unat (h k) mod HASHSIZE"
  have i: "i < HASHSIZE" by (simp add: i_def HASHSIZE_def)
  define cl where "cl = Bucket (hashListArr t) i"
  have ld: "load s cl = Inr (arr ! i)"
    using w0(4,5) i by (simp add: load_def cl_def)
  from lk have lk': "lookup_entry c k (cs i) = None" by (simp add: st i_def)
  from kk have kk': "c k k = 0" by (simp add: st)
  have fr: "tail_cell cl (cs i) \<noteq> Next (brk s)"
    unfolding cl_def by (rule wf_tail_cell_fresh[OF wf i])
  from At_loop_insert[OF w0(1,2) kk' w0(8)[OF i] ld lk' fr] obtain s1 where
    s1: "new_entry s (tail_cell cl (cs i)) k = Inr s1"
        "At_loop s hashTable k cl = Some (Inr (s1, tail_cell cl (cs i)))"
        "load s (tail_cell cl (cs i)) = Inr 0" by blast
  from new_entry_step[OF s1(3) fr, of k] s1(1)
  have ld1: "load s1 (tail_cell cl (cs i)) = Inr (brk s)" by simp
  note f = new_entry_fields[OF wf w0(1) w0(4) i s1(1)[unfolded cl_def]]
  have "element_ref s1 (tail_cell cl (cs i)) = Inr (Element_of (Suc (brk s)))"
    using ld1 f(5) w0(7) by (simp add: element_ref_def)
  with s1(2) have "HashTable_At s hashTable k = Some (Inr (s1, Element_of (Suc (brk s))))"
    by (simp add: HashTable_At_def st i_def[symmetric] cl_def[symmetric])
  moreover have "wf_table s1 hashTable (cs(i := cs i @ [new_e s k]))"
    by (rule new_entry_wf[OF wf w0(1) i s1(1)[unfolded cl_def]])
  ultimately show ?thesis using f(1-4) by (simp add: st i_def[symmetric])
qed

lemma HashTable_At_diverges:
  fixes s :: "('k, 'w) memory"
  assumes wf: "wf_table s hashTable cs"
    and lk: "lookup_entry (table_cmp s hashTable) k (cs (bucket_of s hashTable k)) = None"
    and kk: "table_cmp s hashTable k k \<noteq> 0"
  shows "HashTable_At s hashTable k = None"
proof -
  from wf obtain t :: "('k, 'w) HashTable" and c h arr where w0:
    "tables s hashTable = Some t" "cmp t = Some c" "hash t = Some h"
    "arrays s (hashListArr t) = Some arr" "length arr = HASHSIZE"
    "hashTable \<noteq> 0" "0 < brk s"
    "\<And>i. i < HASHSIZE \<Longrightarrow> chain s (arr ! i) (cs i)"
    "\<And>e. e \<in> set (entries cs) \<Longrightarrow> e_node e < brk s \<and> e_pair e < brk s"
    "distinct (map e_node (entries cs))" "distinct (map e_pair (entries cs))"
    by (rule wf_tableE) (rule that, assumption+)
  note st = wf_table_strategies[OF w0(1-3)]
  define i where "i = unat (h k) mod HASHSIZE"
  have i: "i < HASHSIZE" by (simp add: i_def HASHSIZE_def)
  define cl where "cl = Bucket (hashListArr t) i"
  have ld: "load s cl = Inr (arr ! i)"
    using w0(4,5) i by (simp add: load_def cl_def)
  from lk have lk': "lookup_entry c k (cs i) = None" by (simp add: st i_def)
  from kk have kk': "c k k \<noteq> 0" by (simp add: st)
  have fr: "tail_cell cl (cs i) \<noteq> Next (brk s)"
    unfolding cl_def by (rule wf_tail_cell_fresh[OF wf i])
  from At_loop_absent_diverges[OF w0(1,2) kk' w0(8)[OF i] ld lk' fr]
  show ?thesis
    by (simp add: HashTable_At_def st i_def[symmetric] cl_def[symmetric])
qed

lemma HashTable_Has_wf:
  fixes s :: "('k, 'w) memory"
  assumes wf: "wf_table s hashTable cs"
  shows "HashTable_Has s hashTable k = Some (Inr
     (case lookup_entry (table_cmp s hashTable) k (cs (bucket_of s hashTable k)) of
        None \<Rightarrow> Null_slot
      | Some e \<Rightarrow> Element_of (e_pair e)))"
proof -
  from wf obtain t :: "('k, 'w) HashTable" and c h arr where w0:
    "tables s hashTable = Some t" "cmp t = Some c" "hash t = Some h"
    "arrays s (hashListArr t) = Some arr" "length arr = HASHSIZE"
    "hashTable \<noteq> 0" "0 < brk s"
    "\<And>i. i < HASHSIZE \<Longrightarrow> chain s (arr ! i) (cs i)"
    "\<And>e. e \<in> set (entries cs) \<Longrightarrow> e_node e < brk s \<and> e_pair e < brk s"
    "distinct (map e_node (entries cs))" "distinct (map e_pair (entries cs))"
    by (rule wf_tableE) (rule that, assumption+)
  note st = wf_table_strategies[OF w0(1-3)]
  define i where "i = unat (h k) mod HASHSIZE"
  have i: "i < HASHSIZE" by (simp add: i_def HASHSIZE_def)
  define cl where "cl = Bucket (hashListArr t) i"
  have ld: "load s cl = Inr (arr ! i)"
    using w0(4,5) i by (simp add: load_def cl_def)
  from Has_loop_chain[OF w0(1,2) w0(8)[OF i] ld, of k] obtain list where
    l: "Has_loop s hashTable k cl = Some (Inr list)"
       "load s list = Inr (case lookup_entry c k (cs i) of None \<Rightarrow> 0 | Some e \<Rightarrow> e_node e)"
    by blast
  have "element_ref s list = Inr (case lookup_entry c k (cs i) of
        None \<Rightarrow> Null_slot | Some e \<Rightarrow> Element_of (e_pair e))"
  proof (cases "lookup_entry c k (cs i)")
    case None
    with l(2) show ?thesis by (simp add: element_ref_def)
  next
    case (Some e)
    then have "e \<in> set (cs i)" by (auto simp: lookup_entry_def find_Some_iff)
    from chain_mem[OF w0(8)[OF i] this] l(2) Some show ?thesis
      by (auto simp: element_ref_def)
  qed
  with l(1) show ?thesis
    by (simp add: HashTable_Has_def st i_def[symmetric] cl_def[symmetric])
qed

section \<open>Initialisation and teardown\<close>

lemma entries_empty: "entries (\<lambda>i. []) = []"
  by (simp add: entries_def)

lemma HashTable_Init_wf:
  fixes s :: "('k, 'w) memory"
  assumes "tables s hashTable = Some t0" "hashTable \<noteq> 0" "0 < brk s" "null_free s"
  shows "\<exists>s1. HashTable_Init s hashTable (Some c) (Some h) r = Inr (s1, hashTable) \<and>
     wf_table s1 hashTable (\<lambda>i. []) \<and> world s1 = world s \<and>
     table_cmp s1 hashTable = c \<and> table_hash s1 hashTable = h \<and>
     table_onRemove s1 hashTable = r \<and> brk s1 = Suc (brk s)"
  using assms
  by (simp add: HashTable_Init_def calloc_def malloc_def wf_table_def entries_empty
      table_cmp_def table_hash_def table_onRemove_def null_free_def)

lemma release_cong:
  "pairs s' (e_pair e) = pairs s (e_pair e) \<Longrightarrow> release r s' w e = release r s w e"
  by (cases r) (simp_all add: release_def)

lemma foldl_release_cong:
  "(\<And>e. e \<in> set es \<Longrightarrow> pairs s' (e_pair e) = pairs s (e_pair e)) \<Longrightarrow>
   foldl (release r s') w es = foldl (release r s) w es"
proof (induction es arbitrary: w)
  case Nil
  then show ?case by simp
next
  case (Cons x es)
  have "release r s' w x = release r s w x"
    by (rule release_cong) (simp add: Cons.prems)
  moreover have "foldl (release r s') (release r s w x) es = foldl (release r s) (release r s w x) es"
    by (rule Cons.IH) (simp add: Cons.prems)
  ultimately show ?case by simp
qed

lemma Destroy_while_chain:
  fixes s :: "('k, 'w) memory"
  assumes "tables s hashTable = Some t" "onRemove t = r"
    "chain s p es" "distinct (map e_node es)" "distinct (map e_pair es)"
  shows "\<exists>s'. Destroy_while s hashTable p = Some (Inr s') \<and>
     tables s' = tables s \<and> arrays s' = arrays s \<and> brk s' = brk s \<and>
     (\<forall>n. n \<notin> e_node ` set es \<longrightarrow> nodes s' n = nodes s n) \<and>
     (\<forall>q. q \<notin> e_pair ` set es \<longrightarrow> pairs s' q = pairs s q) \<and>
     world s' = foldl (release r s) (world s) es"
  using assms
proof (induction es arbitrary: s p)
  case Nil
  then show ?case by (subst Destroy_while.simps) simp
next
  case (Cons x es)
  from chain_ConsD[OF Cons.prems(3)] obtain nd :: HashList where x: "p = e_node x" "p \<noteq> 0"
    "chain s (next' nd) es" "nodes s p = Some nd" "pair nd = e_pair x" by blast
  from Cons.prems(3) obtain pr where pr: "pairs s (e_pair x) = Some pr"
    by (auto split: option.splits)
  define s1 where "s1 = s\<lparr>world := release r s (world s) x\<rparr>"
  have c1: "call_onRemove s hashTable (pair nd) = Inr s1"
    using Cons.prems(1,2) x(5) pr
    by (cases r) (simp_all add: call_onRemove_def s1_def release_def)
  define s2 where
    "s2 = (if e_pair x = 0 then s1 else s1\<lparr>pairs := (pairs s1)(e_pair x := None)\<rparr>)"
  have s2: "free_pair s1 (pair nd) = Inr s2" "tables s2 = tables s"
    "arrays s2 = arrays s" "brk s2 = brk s" "nodes s2 = nodes s" "world s2 = world s1"
    "\<And>q. q \<noteq> e_pair x \<Longrightarrow> pairs s2 q = pairs s q"
    using pr x(5) by (simp_all add: free_pair_def s1_def s2_def)
  define s3 where "s3 = s2\<lparr>nodes := (nodes s2)(p := None)\<rparr>"
  have s3: "free_node s2 p = Inr s3" "tables s3 = tables s"
    "arrays s3 = arrays s" "brk s3 = brk s" "world s3 = world s1"
    "\<And>q. q \<noteq> e_pair x \<Longrightarrow> pairs s3 q = pairs s q"
    "\<And>n. n \<noteq> e_node x \<Longrightarrow> nodes s3 n = nodes s n"
    using s2 x(1,2,4) by (simp_all add: free_node_def s3_def)
  have step: "Destroy_while s hashTable p = Destroy_while s3 hashTable (next' nd)"
    using x(2,4) c1 s2(1) s3(1) by (subst Destroy_while.simps) simp
  have ch3: "chain s3 (next' nd) es"
  proof (rule chain_frame[OF x(3)])
    fix e assume "e \<in> set es"
    then have "e_node e \<in> e_node ` set es" "e_pair e \<in> e_pair ` set es" by simp_all
    with Cons.prems(4,5) have "e_node e \<noteq> e_node x" "e_pair e \<noteq> e_pair x" by auto
    with s3(6,7) show "nodes s3 (e_node e) = nodes s (e_node e) \<and>
        map_option key (pairs s3 (e_pair e)) = map_option key (pairs s (e_pair e))" by simp
  qed
  have "\<exists>s'. Destroy_while s3 hashTable (next' nd) = Some (Inr s') \<and>
     tables s' = tables s3 \<and> arrays s' = arrays s3 \<and> brk s' = brk s3 \<and>
     (\<forall>n. n \<notin> e_node ` set es \<longrightarrow> nodes s' n = nodes s3 n) \<and>
     (\<forall>q. q \<notin> e_pair ` set es \<longrightarrow> pairs s' q = pairs s3 q) \<and>
     world s' = foldl (release r s3) (world s3) es"
  proof (rule Cons.IH[OF _ Cons.prems(2) ch3])
    show "tables s3 hashTable = Some t" using s3(2) Cons.prems(1) by simp
    show "distinct (map e_node es)" using Cons.prems(4) by simp
    show "distinct (map e_pair es)" using Cons.prems(5) by simp
  qed
  then obtain s' where s'0: "Destroy_while s3 hashTable (next' nd) = Some (Inr s') \<and>
     tables s' = tables s3 \<and> arrays s' = arrays s3 \<and> brk s' = brk s3 \<and>
     (\<forall>n. n \<notin> e_node ` set es \<longrightarrow> nodes s' n = nodes s3 n) \<and>
     (\<forall>q. q \<notin> e_pair ` set es \<longrightarrow> pairs s' q = pairs s3 q) \<and>
     world s' = foldl (release r s3) (world s3) es" ..
  then have s': "Destroy_while s3 hashTable (next' nd) = Some (Inr s')"
     "tables s' = tables s3" "arrays s' = arrays s3" "brk s' = brk s3"
     "\<forall>n. n \<notin> e_node ` set es \<longrightarrow> nodes s' n = nodes s3 n"
     "\<forall>q. q \<notin> e_pair ` set es \<longrightarrow> pairs s' q = pairs s3 q"
     "world s' = foldl (release r s3) (world s3) es" by simp_all
  have fr: "foldl (release r s3) (world s3) es = foldl (release r s) (world s3) es"
  proof (rule foldl_release_cong)
    fix e assume "e \<in> set es"
    then have "e_pair e \<in> e_pair ` set es" by simp
    with Cons.prems(5) have "e_pair e \<noteq> e_pair x" by auto
    with s3(6) show "pairs s3 (e_pair e) = pairs s (e_pair e)" by simp
  qed
  have w: "world s' = foldl (release r s) (world s) (x # es)"
    using s'(7) fr s3(5) by (simp add: s1_def)
  have n: "\<forall>n. n \<notin> e_node ` set (x # es) \<longrightarrow> nodes s' n = nodes s n"
    using s'(5) s3(7) by simp
  have q: "\<forall>q. q \<notin> e_pair ` set (x # es) \<longrightarrow> pairs s' q = pairs s q"
    using s'(6) s3(6) by simp
  have d: "Destroy_while s hashTable p = Some (Inr s')" using step s'(1) by simp
  have "tables s' = tables s" "arrays s' = arrays s" "brk s' = brk s"
    using s'(2-4) s3(2-4) by simp_all
  with d n q w show ?case by blast
qed


lemma Destroy_for_chains:
  fixes s :: "('k, 'w) memory"
  assumes "tables s hashTable = Some t" "onRemove t = r"
    "arrays s (hashListArr t) = Some arr"
    "\<And>j. j \<in> set js \<Longrightarrow> j < length arr \<and> chain s (arr ! j) (cs j)"
    "distinct (map e_node (concat (map cs js)))"
    "distinct (map e_pair (concat (map cs js)))"
  shows "\<exists>s'. Destroy_for js s hashTable = Some (Inr s') \<and>
     tables s' = tables s \<and> arrays s' = arrays s \<and> brk s' = brk s \<and>
     world s' = foldl (release r s) (world s) (concat (map cs js))"
  using assms
proof (induction js arbitrary: s)
  case Nil
  then show ?case by simp
next
  case (Cons j js)
  have j: "j < length arr" "chain s (arr ! j) (cs j)" using Cons.prems(4)[of j] by simp_all
  have ld: "load s (Bucket (hashListArr t) j) = Inr (arr ! j)"
    using Cons.prems(3) j(1) by (simp add: load_def)
  have dn: "distinct (map e_node (cs j))" and dp: "distinct (map e_pair (cs j))"
    using Cons.prems(5,6) by simp_all
  from Destroy_while_chain[OF Cons.prems(1,2) j(2) dn dp] obtain s1 where s1:
    "Destroy_while s hashTable (arr ! j) = Some (Inr s1) \<and>
     tables s1 = tables s \<and> arrays s1 = arrays s \<and> brk s1 = brk s \<and>
     (\<forall>n. n \<notin> e_node ` set (cs j) \<longrightarrow> nodes s1 n = nodes s n) \<and>
     (\<forall>q. q \<notin> e_pair ` set (cs j) \<longrightarrow> pairs s1 q = pairs s q) \<and>
     world s1 = foldl (release r s) (world s) (cs j)" ..
  have rest_n: "\<And>e. e \<in> set (concat (map cs js)) \<Longrightarrow> nodes s1 (e_node e) = nodes s (e_node e)"
  proof -
    fix e assume "e \<in> set (concat (map cs js))"
    then have "e_node e \<in> e_node ` set (concat (map cs js))" by (rule imageI)
    with Cons.prems(5) have "e_node e \<notin> e_node ` set (cs j)" by auto
    with s1 show "nodes s1 (e_node e) = nodes s (e_node e)" by simp
  qed
  have rest_p: "\<And>e. e \<in> set (concat (map cs js)) \<Longrightarrow> pairs s1 (e_pair e) = pairs s (e_pair e)"
  proof -
    fix e assume "e \<in> set (concat (map cs js))"
    then have "e_pair e \<in> e_pair ` set (concat (map cs js))" by (rule imageI)
    with Cons.prems(6) have "e_pair e \<notin> e_pair ` set (cs j)" by auto
    with s1 show "pairs s1 (e_pair e) = pairs s (e_pair e)" by simp
  qed
  have "\<exists>s'. Destroy_for js s1 hashTable = Some (Inr s') \<and>
     tables s' = tables s1 \<and> arrays s' = arrays s1 \<and> brk s' = brk s1 \<and>
     world s' = foldl (release r s1) (world s1) (concat (map cs js))"
  proof (rule Cons.IH[OF _ Cons.prems(2)])
    show "tables s1 hashTable = Some t" using s1 Cons.prems(1) by simp
    show "arrays s1 (hashListArr t) = Some arr" using s1 Cons.prems(3) by simp
    show "distinct (map e_node (concat (map cs js)))" using Cons.prems(5) by simp
    show "distinct (map e_pair (concat (map cs js)))" using Cons.prems(6) by simp
    fix i assume i: "i \<in> set js"
    then have ci: "chain s (arr ! i) (cs i)" and il: "i < length arr"
      using Cons.prems(4)[of i] by simp_all
    have "chain s1 (arr ! i) (cs i)"
    proof (rule chain_frame[OF ci])
      fix e assume "e \<in> set (cs i)"
      with i have "e \<in> set (concat (map cs js))" by auto
      from rest_n[OF this] rest_p[OF this]
      show "nodes s1 (e_node e) = nodes s (e_node e) \<and>
        map_option key (pairs s1 (e_pair e)) = map_option key (pairs s (e_pair e))" by simp
    qed
    with il show "i < length arr \<and> chain s1 (arr ! i) (cs i)" by simp
  qed
  then obtain s' where s': "Destroy_for js s1 hashTable = Some (Inr s') \<and>
     tables s' = tables s1 \<and> arrays s' = arrays s1 \<and> brk s' = brk s1 \<and>
     world s' = foldl (release r s1) (world s1) (concat (map cs js))" ..
  have "foldl (release r s1) (world s1) (concat (map cs js)) =
        foldl (release r s) (world s1) (concat (map cs js))"
    by (rule foldl_release_cong) (rule rest_p)
  with s' s1 have w: "world s' = foldl (release r s) (world s) (concat (map cs (j # js)))"
    by simp
  have d: "Destroy_for (j # js) s hashTable = Some (Inr s')"
    using Cons.prems(1) ld s1 s' by simp
  have "tables s' = tables s" "arrays s' = arrays s" "brk s' = brk s"
    using s' s1 by simp_all
  with d w show ?case by blast
qed

lemma HashTable_Destroy_wf:
  fixes s :: "('k, 'w) memory"
  assumes wf: "wf_table s hashTable cs"
  shows "\<exists>s'. HashTable_Destroy s hashTable = Some (Inr s') \<and>
     world s' = foldl (release (table_onRemove s hashTable) s) (world s) (entries cs) \<and>
     HashTable_Ready s' hashTable = Inr False \<and> brk s' = brk s"
proof -
  from wf obtain t :: "('k, 'w) HashTable" and c h arr where w0:
    "tables s hashTable = Some t" "cmp t = Some c" "hash t = Some h"
    "arrays s (hashListArr t) = Some arr" "length arr = HASHSIZE"
    "hashTable \<noteq> 0" "0 < brk s"
    "\<And>i. i < HASHSIZE \<Longrightarrow> chain s (arr ! i) (cs i)"
    "\<And>e. e \<in> set (entries cs) \<Longrightarrow> e_node e < brk s \<and> e_pair e < brk s"
    "distinct (map e_node (entries cs))" "distinct (map e_pair (entries cs))"
    by (rule wf_tableE) (rule that, assumption+)
  have rdy: "HashTable_Ready s hashTable = Inr True"
    using w0(1,3,6) by (simp add: HashTable_Ready_def)
  have r: "table_onRemove s hashTable = onRemove t"
    using w0(1) by (simp add: table_onRemove_def)
  have "\<exists>s1. Destroy_for [0..<HASHSIZE] s hashTable = Some (Inr s1) \<and>
     tables s1 = tables s \<and> arrays s1 = arrays s \<and> brk s1 = brk s \<and>
     world s1 = foldl (release (onRemove t) s) (world s) (concat (map cs [0..<HASHSIZE]))"
  proof (rule Destroy_for_chains[OF w0(1) refl w0(4)])
    show "\<And>j. j \<in> set [0..<HASHSIZE] \<Longrightarrow> j < length arr \<and> chain s (arr ! j) (cs j)"
      using w0(5,8) by simp
    show "distinct (map e_node (concat (map cs [0..<HASHSIZE])))"
      using w0(10) by (simp add: entries_def)
    show "distinct (map e_pair (concat (map cs [0..<HASHSIZE])))"
      using w0(11) by (simp add: entries_def)
  qed
  then obtain s1 where s1: "Destroy_for [0..<HASHSIZE] s hashTable = Some (Inr s1) \<and>
     tables s1 = tables s \<and> arrays s1 = arrays s \<and> brk s1 = brk s \<and>
     world s1 = foldl (release (onRemove t) s) (world s) (concat (map cs [0..<HASHSIZE]))" ..
  define s2 where "s2 = (if hashListArr t = 0 then s1
     else s1\<lparr>arrays := (arrays s1)(hashListArr t := None)\<rparr>)"
  have fa: "free_array s1 (hashListArr t) = Inr s2"
    using s1 w0(4) by (simp add: free_array_def s2_def)
  have t2: "tables s2 hashTable = Some t" "world s2 = world s1" "brk s2 = brk s1"
    using s1 w0(1) by (simp_all add: s2_def)
  define s3 where "s3 = s2\<lparr>tables := (tables s2)(hashTable \<mapsto> t\<lparr>hash := None\<rparr>)\<rparr>"
  have "HashTable_Destroy s hashTable = Some (Inr s3)"
    using w0(1,6) rdy s1 fa t2 by (simp add: HashTable_Destroy_def s3_def)
  moreover have "HashTable_Ready s3 hashTable = Inr False"
    using w0(6) by (simp add: HashTable_Ready_def s3_def)
  moreover have "world s3 = foldl (release (table_onRemove s hashTable) s) (world s) (entries cs)"
    using s1 t2 r by (simp add: s3_def entries_def)
  moreover have "brk s3 = brk s" using s1 t2 by (simp add: s3_def)
  ultimately show ?thesis by blast
qed

section \<open>The example memories\<close>

lemma Init_mem0:
  "HashTable_Init mem0 tbl (Some cmp_ptr) (Some hash_ptr) (Some log_onRemove) = Inr (mem_init, tbl)"
  by (simp add: HashTable_Init_def mem0_def mem_init_def table_mem_def calloc_def malloc_def
      zero_table_def)

lemma tbl_not_null: "tbl \<noteq> 0"
  by (simp add: tbl_def)

lemma wf_mem_init: "wf_table mem_init tbl (\<lambda>i. [])"
  using HashTable_Init_wf[of mem0 tbl zero_table cmp_ptr hash_ptr "Some log_onRemove"] Init_mem0
  by (simp add: mem0_def tbl_not_null null_free_def)

section \<open>Readiness and teardown of tables that are not ready\<close>

lemma Destroy_then_not_ready:
  "HashTable_Destroy s hashTable = Some (Inr s') \<Longrightarrow> HashTable_Ready s' hashTable = Inr False"
  apply (cases "hashTable = 0")
   apply (simp add: HashTable_Destroy_def HashTable_Ready_def)
  apply (auto simp: HashTable_Destroy_def HashTable_Ready_def free_array_def
      split: option.splits sum.splits if_splits bool.splits)
  done

text \<open>
  C7. \<^verbatim>\<open>HashTable_Ready\<close> on a table returns true exactly when the table's \<^verbatim>\<open>hash\<close>
  pointer is not null; so it returns false on a zero-initialised table, and it returns
  false on a table after \<^verbatim>\<open>HashTable_Destroy\<close> has returned. The function is a query: its
  model takes the memory and returns a truth value only, as the source stores nothing.
\<close>

theorem HashTable_Ready_iff_hash:
  "(\<forall>(s :: ('k, 'w) memory) hashTable t.
      hashTable \<noteq> 0 \<longrightarrow> tables s hashTable = Some t \<longrightarrow>
      HashTable_Ready s hashTable = Inr (hash t \<noteq> None)) \<and>
   (\<forall>(s :: ('k, 'w) memory) hashTable.
      hashTable \<noteq> 0 \<longrightarrow> tables s hashTable = Some zero_table \<longrightarrow>
      HashTable_Ready s hashTable = Inr False) \<and>
   (\<forall>(s :: ('k, 'w) memory) hashTable s'.
      HashTable_Destroy s hashTable = Some (Inr s') \<longrightarrow>
      HashTable_Ready s' hashTable = Inr False)"
proof (intro conjI allI impI)
  fix s :: "('k, 'w) memory" and hashTable t
  assume "hashTable \<noteq> 0" "tables s hashTable = Some t"
  then show "HashTable_Ready s hashTable = Inr (hash t \<noteq> None)"
    by (simp add: HashTable_Ready_def del: not_None_eq)
next
  fix s :: "('k, 'w) memory" and hashTable
  assume "hashTable \<noteq> 0" "tables s hashTable = Some zero_table"
  then show "HashTable_Ready s hashTable = Inr False"
    by (simp add: HashTable_Ready_def zero_table_def)
next
  fix s s' :: "('k, 'w) memory" and hashTable
  assume "HashTable_Destroy s hashTable = Some (Inr s')"
  then show "HashTable_Ready s' hashTable = Inr False"
    by (rule Destroy_then_not_ready)
qed

theorem HashTable_Ready_iff_hash_witness:
  "HashTable_Ready mem_init tbl = Inr True \<and> HashTable_Ready mem0 tbl = Inr False \<and>
   (\<exists>s'. HashTable_Destroy mem_init tbl = Some (Inr s') \<and> HashTable_Ready s' tbl = Inr False)"
proof -
  note th = HashTable_Ready_iff_hash
  have a: "HashTable_Ready mem_init tbl = Inr True"
    using th[THEN conjunct1, rule_format, of tbl mem_init]
    by (simp add: mem_init_def table_mem_def tbl_not_null)
  have b: "HashTable_Ready mem0 tbl = Inr False"
    using th[THEN conjunct2, THEN conjunct1, rule_format, of tbl mem0]
    by (simp add: mem0_def tbl_not_null)
  from HashTable_Destroy_wf[OF wf_mem_init] obtain s' where
    d: "HashTable_Destroy mem_init tbl = Some (Inr s')" by blast
  from th[THEN conjunct2, THEN conjunct2, rule_format, OF d]
  have "HashTable_Ready s' tbl = Inr False" .
  with a b d show ?thesis by blast
qed

text \<open>
  C8. On a table that is not ready (\<^verbatim>\<open>HashTable_Ready\<close> returns false), an all-zero table
  included, \<^verbatim>\<open>HashTable_Destroy\<close> returns with the memory as it was: no callback has run
  (the caller's state is unchanged) and nothing has been freed or written.
\<close>

theorem HashTable_Destroy_not_ready:
  "HashTable_Ready s hashTable = Inr False \<Longrightarrow> HashTable_Destroy s hashTable = Some (Inr s)"
  by (simp add: HashTable_Destroy_def)

theorem HashTable_Destroy_not_ready_witness:
  "HashTable_Ready mem0 tbl = Inr False \<and> HashTable_Destroy mem0 tbl = Some (Inr mem0)"
proof -
  have r: "HashTable_Ready mem0 tbl = Inr False"
    by (simp add: HashTable_Ready_def mem0_def zero_table_def tbl_not_null)
  from HashTable_Destroy_not_ready[OF r] r show ?thesis by simp
qed

text \<open>
  C9. With a null table pointer, \<^verbatim>\<open>HashTable_Ready\<close> returns false and
  \<^verbatim>\<open>HashTable_Destroy\<close> returns at once with the memory unchanged; neither reads through
  the pointer, which would be the error \<open>BadPointer\<close>.
\<close>

theorem null_table_pointer:
  "HashTable_Ready s 0 = Inr False \<and> HashTable_Destroy s 0 = Some (Inr s)"
  by (simp add: HashTable_Ready_def HashTable_Destroy_def)

section \<open>Uniqueness of keys\<close>

lemma lookup_entry_None: "lookup_entry c k es = None \<longleftrightarrow> (\<forall>e\<in>set es. c k (e_key e) \<noteq> 0)"
  by (auto simp: lookup_entry_def find_None_iff)

lemma lookup_entry_Some:
  "lookup_entry c k es = Some e \<Longrightarrow> e \<in> set es \<and> c k (e_key e) = 0"
  by (auto simp: lookup_entry_def find_Some_iff)

lemma set_entries_snoc:
  "i < HASHSIZE \<Longrightarrow> set (entries (cs(i := cs i @ [x]))) = insert x (set (entries cs))"
  by (simp add: entries_upd entries_split[of i cs])

lemma length_entries_snoc:
  "i < HASHSIZE \<Longrightarrow> length (entries (cs(i := cs i @ [x]))) = Suc (length (entries cs))"
  by (simp add: entries_upd entries_split[of i cs])

lemma card_key_classes:
  assumes eq: "equivalence_on (set L) c" and sub: "T \<subseteq> set L"
    and cov: "\<forall>k\<in>set L. \<exists>t\<in>T. c k t = 0"
    and uniq: "\<forall>t\<in>T. \<forall>t'\<in>T. c t t' = 0 \<longrightarrow> t = t'"
  shows "num_distinct c L = card T"
proof -
  have refl: "\<And>a. a \<in> set L \<Longrightarrow> c a a = 0"
    and sym: "\<And>a b. a \<in> set L \<Longrightarrow> b \<in> set L \<Longrightarrow> c a b = 0 \<Longrightarrow> c b a = 0"
    and trans: "\<And>a b d. a \<in> set L \<Longrightarrow> b \<in> set L \<Longrightarrow> d \<in> set L \<Longrightarrow>
        c a b = 0 \<Longrightarrow> c b d = 0 \<Longrightarrow> c a d = 0"
    using eq unfolding equivalence_on_def by blast+
  have cls: "\<And>k t. k \<in> set L \<Longrightarrow> t \<in> set L \<Longrightarrow> c k t = 0 \<Longrightarrow> key_class c L k = key_class c L t"
  proof -
    fix k t assume kt: "k \<in> set L" "t \<in> set L" "c k t = 0"
    have tk: "c t k = 0" using sym[OF kt] .
    show "key_class c L k = key_class c L t"
      unfolding key_class_def using trans[OF kt(1,2) _ kt(3)] trans[OF kt(2,1) _ tk] by blast
  qed
  have img: "key_class c L ` set L = key_class c L ` T"
  proof
    show "key_class c L ` set L \<subseteq> key_class c L ` T"
    proof
      fix X assume "X \<in> key_class c L ` set L"
      then obtain k where k: "k \<in> set L" "X = key_class c L k" by blast
      from cov k(1) obtain t where t: "t \<in> T" "c k t = 0" by blast
      with sub have "t \<in> set L" by blast
      from cls[OF k(1) this t(2)] k(2) t(1) show "X \<in> key_class c L ` T" by blast
    qed
    show "key_class c L ` T \<subseteq> key_class c L ` set L" using sub by blast
  qed
  have inj: "inj_on (key_class c L) T"
  proof (rule inj_onI)
    fix t t' assume t: "t \<in> T" "t' \<in> T" "key_class c L t = key_class c L t'"
    from t(2) sub have "t' \<in> set L" by blast
    with refl[OF this] have "t' \<in> key_class c L t'" by (simp add: key_class_def)
    with t(3) have "t' \<in> key_class c L t" by simp
    then have "c t t' = 0" by (simp add: key_class_def)
    with uniq t(1,2) show "t = t'" by blast
  qed
  show ?thesis
    unfolding num_distinct_def img by (rule card_image[OF inj])
qed

lemma unique_keys_length:
  assumes u: "unique_keys c es" and d: "distinct es" and r: "\<forall>e\<in>set es. c (e_key e) (e_key e) = 0"
  shows "card (e_key ` set es) = length es"
proof -
  have "inj_on e_key (set es)"
  proof (rule inj_onI)
    fix e e' assume e: "e \<in> set es" "e' \<in> set es" "e_key e = e_key e'"
    with r have "c (e_key e) (e_key e') = 0" by simp
    with u e(1,2) show "e = e'" unfolding unique_keys_def by blast
  qed
  then have "card (e_key ` set es) = card (set es)" by (rule card_image)
  with d show ?thesis by (simp add: distinct_card)
qed


lemma same_tables:
  assumes "tables s1 = tables s"
  shows "table_cmp s1 hashTable = table_cmp s hashTable"
    "table_hash s1 hashTable = table_hash s hashTable"
    "bucket_of s1 hashTable = bucket_of s hashTable"
    "table_onRemove s1 hashTable = table_onRemove s hashTable"
    "placed s1 hashTable cs = placed s hashTable cs"
  using assms
  by (simp_all add: table_cmp_def table_hash_def bucket_of_def table_onRemove_def placed_def
      fun_eq_iff)

lemma HashTable_At_keeps_unique:
  fixes s :: "('k, 'w) memory"
  assumes wf: "wf_table s hashTable cs" and pl: "placed s hashTable cs"
    and un: "unique_keys (table_cmp s hashTable) (entries cs)"
    and refl: "table_cmp s hashTable k k = 0"
    and sym: "\<forall>e\<in>set (entries cs). table_cmp s hashTable (e_key e) k = 0 \<longrightarrow>
                table_cmp s hashTable k (e_key e) = 0"
    and hr: "\<forall>e\<in>set (entries cs). table_cmp s hashTable k (e_key e) = 0 \<longrightarrow>
                bucket_of s hashTable (e_key e) = bucket_of s hashTable k"
  shows "\<exists>s1 r cs1. HashTable_At s hashTable k = Some (Inr (s1, r)) \<and>
     wf_table s1 hashTable cs1 \<and> placed s1 hashTable cs1 \<and>
     unique_keys (table_cmp s hashTable) (entries cs1) \<and> tables s1 = tables s \<and>
     set (entries cs) \<subseteq> set (entries cs1) \<and>
     e_key ` set (entries cs1) \<subseteq> insert k (e_key ` set (entries cs)) \<and>
     (\<exists>e\<in>set (entries cs1). table_cmp s hashTable k (e_key e) = 0)"
proof -
  define c where "c = table_cmp s hashTable"
  define i where "i = bucket_of s hashTable k"
  have i: "i < HASHSIZE" unfolding i_def by (rule bucket_of_less)
  show ?thesis
  proof (cases "lookup_entry c k (cs i)")
    case (Some e)
    from HashTable_At_found[OF wf Some[unfolded c_def i_def]]
    have at: "HashTable_At s hashTable k = Some (Inr (s, Element_of (e_pair e)))" .
    from lookup_entry_Some[OF Some] i have "e \<in> set (entries cs)" "c k (e_key e) = 0"
      by (simp_all add: bucket_in_entries)
    with at wf pl un show ?thesis unfolding c_def by blast
  next
    case None
    from HashTable_At_insert[OF wf None[unfolded c_def i_def] refl]
    obtain s1 where s1: "HashTable_At s hashTable k = Some (Inr (s1, Element_of (Suc (brk s))))"
      "wf_table s1 hashTable (cs(i := cs i @ [new_e s k]))" "tables s1 = tables s"
      unfolding i_def by blast
    define cs1 where "cs1 = cs(i := cs i @ [new_e s k])"
    have ent: "set (entries cs1) = insert (new_e s k) (set (entries cs))"
      unfolding cs1_def by (rule set_entries_snoc[OF i])
    have nk: "e_key (new_e s k) = k" by (simp add: new_e_def)
    have nomatch: "\<And>e. e \<in> set (entries cs) \<Longrightarrow> c k (e_key e) \<noteq> 0"
    proof
      fix e assume e: "e \<in> set (entries cs)" "c k (e_key e) = 0"
      from e(1) obtain j where j: "j < HASHSIZE" "e \<in> set (cs j)"
        by (auto simp: set_entries)
      from pl j have "bucket_of s hashTable (e_key e) = j" unfolding placed_def by blast
      moreover from hr e have "bucket_of s hashTable (e_key e) = i"
        unfolding c_def i_def by blast
      ultimately have "j = i" by simp
      with j(2) None e(2) show False by (simp add: lookup_entry_None)
    qed
    have nomatch': "\<And>e. e \<in> set (entries cs) \<Longrightarrow> c (e_key e) k \<noteq> 0"
      using nomatch sym unfolding c_def by blast
    have pl0: "placed s hashTable cs1"
      unfolding placed_def cs1_def
      using pl i nk by (auto simp: placed_def i_def)
    have pl1: "placed s1 hashTable cs1"
      using pl0 same_tables(5)[OF s1(3), of hashTable cs1] by simp
    have un1: "unique_keys c (entries cs1)"
      unfolding unique_keys_def ent
      using un nomatch nomatch' nk unfolding unique_keys_def c_def[symmetric] by auto
    have "e_key ` set (entries cs1) \<subseteq> insert k (e_key ` set (entries cs))"
      unfolding ent using nk by auto
    moreover have "\<exists>e\<in>set (entries cs1). c k (e_key e) = 0"
      unfolding ent using refl nk unfolding c_def by auto
    moreover have "set (entries cs) \<subseteq> set (entries cs1)" unfolding ent by auto
    ultimately show ?thesis
      using s1 pl1 un1 unfolding c_def cs1_def[symmetric] by blast
  qed
qed


lemma bucket_of_table_hash:
  "bucket_of s hashTable k = unat (table_hash s hashTable k) mod HASHSIZE"
  by (simp add: bucket_of_def)

lemma At_seq_keeps_unique:
  fixes s :: "('k, 'w) memory"
  assumes c: "c = table_cmp s hashTable"
    and wf: "wf_table s hashTable cs" and pl: "placed s hashTable cs"
    and un: "unique_keys c (entries cs)"
    and eq: "equivalence_on K c" and hr: "hash_respects K c (table_hash s hashTable)"
    and ks: "set ks \<subseteq> K" and keys: "e_key ` set (entries cs) \<subseteq> K"
  shows "\<exists>s' cs'. At_seq s hashTable ks = Some (Inr s') \<and>
     wf_table s' hashTable cs' \<and> placed s' hashTable cs' \<and>
     unique_keys c (entries cs') \<and> tables s' = tables s \<and>
     set (entries cs) \<subseteq> set (entries cs') \<and>
     e_key ` set (entries cs') \<subseteq> e_key ` set (entries cs) \<union> set ks \<and>
     (\<forall>k\<in>set ks. \<exists>e\<in>set (entries cs'). c k (e_key e) = 0)"
  using c wf pl un hr ks keys
proof (induction ks arbitrary: s cs)
  case Nil
  then show ?case by auto
next
  case (Cons k ks)
  note c = Cons.prems(1)
  have kK: "k \<in> K" and ksK: "set ks \<subseteq> K" using Cons.prems(6) by simp_all
  have refl: "table_cmp s hashTable k k = 0"
    using eq kK unfolding equivalence_on_def c by blast
  have sym: "\<forall>e\<in>set (entries cs). table_cmp s hashTable (e_key e) k = 0 \<longrightarrow>
                table_cmp s hashTable k (e_key e) = 0"
    using eq kK Cons.prems(7) unfolding equivalence_on_def c by blast
  have hrk: "\<forall>e\<in>set (entries cs). table_cmp s hashTable k (e_key e) = 0 \<longrightarrow>
                bucket_of s hashTable (e_key e) = bucket_of s hashTable k"
  proof (intro ballI impI)
    fix e assume e: "e \<in> set (entries cs)" "table_cmp s hashTable k (e_key e) = 0"
    with Cons.prems(7) have "e_key e \<in> K" by blast
    with Cons.prems(5) kK e(2) show "bucket_of s hashTable (e_key e) = bucket_of s hashTable k"
      unfolding hash_respects_def c bucket_of_table_hash by metis
  qed
  from HashTable_At_keeps_unique[OF Cons.prems(2,3) Cons.prems(4)[unfolded c] refl sym hrk]
  obtain s1 r cs1 where s1: "HashTable_At s hashTable k = Some (Inr (s1, r))"
     "wf_table s1 hashTable cs1" "placed s1 hashTable cs1"
     "unique_keys c (entries cs1)" "tables s1 = tables s"
     "set (entries cs) \<subseteq> set (entries cs1)"
     "e_key ` set (entries cs1) \<subseteq> insert k (e_key ` set (entries cs))"
     "\<exists>e\<in>set (entries cs1). c k (e_key e) = 0"
    unfolding c by blast
  have c1: "c = table_cmp s1 hashTable" using c same_tables(1)[OF s1(5)] by simp
  have hr1: "hash_respects K c (table_hash s1 hashTable)"
    using Cons.prems(5) same_tables(2)[OF s1(5)] by simp
  have keys1: "e_key ` set (entries cs1) \<subseteq> K" using s1(7) Cons.prems(7) kK by blast
  from Cons.IH[OF c1 s1(2,3,4) hr1 ksK keys1]
  obtain s' cs' where s': "At_seq s1 hashTable ks = Some (Inr s')"
     "wf_table s' hashTable cs'" "placed s' hashTable cs'"
     "unique_keys c (entries cs')" "tables s' = tables s1"
     "set (entries cs1) \<subseteq> set (entries cs')"
     "e_key ` set (entries cs') \<subseteq> e_key ` set (entries cs1) \<union> set ks"
     "\<forall>k\<in>set ks. \<exists>e\<in>set (entries cs'). c k (e_key e) = 0"
    by blast
  have a: "At_seq s hashTable (k # ks) = Some (Inr s')" using s1(1) s'(1) by simp
  have b: "tables s' = tables s" using s'(5) s1(5) by simp
  have d: "set (entries cs) \<subseteq> set (entries cs')" using s1(6) s'(6) by blast
  have e: "e_key ` set (entries cs') \<subseteq> e_key ` set (entries cs) \<union> set (k # ks)"
    using s'(7) s1(7) by auto
  have f: "\<forall>k\<in>set (k # ks). \<exists>e\<in>set (entries cs'). c k (e_key e) = 0"
    using s'(8) s1(8) s'(6) by auto
  from a s'(2,3,4) b d e f show ?case by blast
qed

lemma equivalence_on_subset: "equivalence_on K c \<Longrightarrow> K' \<subseteq> K \<Longrightarrow> equivalence_on K' c"
  unfolding equivalence_on_def by blast

lemma hash_respects_subset: "hash_respects K c h \<Longrightarrow> K' \<subseteq> K \<Longrightarrow> hash_respects K' c h"
  unfolding hash_respects_def by blast

lemma At_seq_count:
  fixes s :: "('k, 'w) memory"
  assumes wf: "wf_table s hashTable cs" and pl: "placed s hashTable cs"
    and un: "unique_keys (table_cmp s hashTable) (entries cs)"
    and eq: "equivalence_on (set (map e_key (entries cs) @ ks)) (table_cmp s hashTable)"
    and hr: "hash_respects (set (map e_key (entries cs) @ ks)) (table_cmp s hashTable)
               (table_hash s hashTable)"
  shows "\<exists>s' cs'. At_seq s hashTable ks = Some (Inr s') \<and> wf_table s' hashTable cs' \<and>
     unique_keys (table_cmp s hashTable) (entries cs') \<and>
     length (entries cs') = num_distinct (table_cmp s hashTable) (map e_key (entries cs) @ ks)"
proof -
  define c where "c = table_cmp s hashTable"
  define L where "L = map e_key (entries cs) @ ks"
  have ks: "set ks \<subseteq> set L" and keys: "e_key ` set (entries cs) \<subseteq> set L"
    by (auto simp: L_def)
  from At_seq_keeps_unique[OF c_def wf pl un[folded c_def] eq[folded c_def L_def]
      hr[folded c_def L_def] ks keys]
  obtain s' cs' where s': "At_seq s hashTable ks = Some (Inr s')"
     "wf_table s' hashTable cs'" "unique_keys c (entries cs')"
     "set (entries cs) \<subseteq> set (entries cs')"
     "e_key ` set (entries cs') \<subseteq> e_key ` set (entries cs) \<union> set ks"
     "\<forall>k\<in>set ks. \<exists>e\<in>set (entries cs'). c k (e_key e) = 0"
    by blast
  have refl: "\<And>a. a \<in> set L \<Longrightarrow> c a a = 0"
    using eq unfolding equivalence_on_def c_def L_def by blast
  define T where "T = e_key ` set (entries cs')"
  have sub: "T \<subseteq> set L" using s'(5) by (auto simp: T_def L_def)
  have cov: "\<forall>k\<in>set L. \<exists>t\<in>T. c k t = 0"
  proof
    fix k assume "k \<in> set L"
    then consider e where "e \<in> set (entries cs)" "k = e_key e" | "k \<in> set ks"
      by (auto simp: L_def)
    then show "\<exists>t\<in>T. c k t = 0"
    proof cases
      case 1
      with s'(4) have "k \<in> T" by (auto simp: T_def)
      moreover have "c k k = 0" using refl \<open>k \<in> set L\<close> by simp
      ultimately show ?thesis by blast
    next
      case 2
      with s'(6) show ?thesis by (auto simp: T_def)
    qed
  qed
  have uniq: "\<forall>t\<in>T. \<forall>t'\<in>T. c t t' = 0 \<longrightarrow> t = t'"
    using s'(3) unfolding unique_keys_def T_def by blast
  have n: "num_distinct c L = card T"
    by (rule card_key_classes[OF eq[folded c_def L_def] sub cov uniq])
  have "distinct (map e_node (entries cs'))" using s'(2) by (auto elim: wf_tableE)
  then have d: "distinct (entries cs')" by (simp add: distinct_map)
  have r: "\<forall>e\<in>set (entries cs'). c (e_key e) (e_key e) = 0"
    using refl sub by (auto simp: T_def)
  have "card T = length (entries cs')"
    unfolding T_def by (rule unique_keys_length[OF s'(3) d r])
  with n s'(1,2,3) show ?thesis unfolding c_def L_def by auto
qed

section \<open>Evaluating the example memories\<close>

lemma table_mem_sel:
  "tables (table_mem c h r arr nds prs b w) tbl =
     Some \<lparr>hashListArr = 2, cmp = Some c, hash = Some h, onRemove = r\<rparr>"
  "arrays (table_mem c h r arr nds prs b w) 2 = Some arr"
  "nodes (table_mem c h r arr nds prs b w) = nds"
  "pairs (table_mem c h r arr nds prs b w) = prs"
  "brk (table_mem c h r arr nds prs b w) = b"
  "world (table_mem c h r arr nds prs b w) = w"
  "table_cmp (table_mem c h r arr nds prs b w) tbl = c"
  "table_hash (table_mem c h r arr nds prs b w) tbl = h"
  "table_onRemove (table_mem c h r arr nds prs b w) tbl = r"
  "bucket_of (table_mem c h r arr nds prs b w) tbl k = unat (h k) mod HASHSIZE"
  "call_hash (table_mem c h r arr nds prs b w) tbl k = Inr (h k)"
  "bucket_cell (table_mem c h r arr nds prs b w) tbl idx = Inr (Bucket 2 (unat idx mod HASHSIZE))"
  "call_cmp (table_mem c h r arr nds prs b w) tbl x y = Inr (c x y)"
  by (simp_all add: table_mem_def table_cmp_def table_hash_def table_onRemove_def bucket_of_def
      call_hash_def bucket_cell_def call_cmp_def)

lemma null_free_table_mem:
  "nds 0 = None \<Longrightarrow> prs 0 = None \<Longrightarrow> null_free (table_mem c h r arr nds prs b w)"
  by (simp add: null_free_def table_mem_def tbl_not_null)

lemma wf_table_mem_empty:
  "0 < b \<Longrightarrow> nds 0 = None \<Longrightarrow> prs 0 = None \<Longrightarrow>
   wf_table (table_mem c h r (replicate HASHSIZE 0) nds prs b w) tbl (\<lambda>i. [])"
  by (simp add: wf_table_def table_mem_sel entries_empty tbl_not_null null_free_table_mem)

lemma table_mem_new_entry:
  assumes "i < length arr"
  shows "new_entry (table_mem c h r arr nds prs b w) (Bucket 2 i) k =
     Inr (table_mem c h r (arr[i := b]) (nds(b \<mapsto> \<lparr>next' = 0, pair = Suc b\<rparr>))
            (prs(Suc b \<mapsto> \<lparr>key = k, element = 0\<rparr>)) (Suc (Suc b)) w)"
  using assms by (simp add: new_entry_def malloc_def store_def table_mem_def)

lemma At_table_mem_empty_bucket:
  assumes "unat (h k) mod HASHSIZE = i" "i < length arr" "arr ! i = 0" "c k k = 0" "0 < b"
  shows "HashTable_At (table_mem c h r arr nds prs b w) tbl k =
     Some (Inr (table_mem c h r (arr[i := b]) (nds(b \<mapsto> \<lparr>next' = 0, pair = Suc b\<rparr>))
                  (prs(Suc b \<mapsto> \<lparr>key = k, element = 0\<rparr>)) (Suc (Suc b)) w,
                Element_of (Suc b)))"
proof -
  let ?s = "table_mem c h r arr nds prs b w"
  let ?s1 = "table_mem c h r (arr[i := b]) (nds(b \<mapsto> \<lparr>next' = 0, pair = Suc b\<rparr>))
                  (prs(Suc b \<mapsto> \<lparr>key = k, element = 0\<rparr>)) (Suc (Suc b)) w"
  have ld: "load ?s (Bucket 2 i) = Inr 0"
    using assms(2,3) by (simp add: load_def table_mem_sel)
  have ne: "new_entry ?s (Bucket 2 i) k = Inr ?s1"
    by (rule table_mem_new_entry[OF assms(2)])
  have ld1: "load ?s1 (Bucket 2 i) = Inr b"
    using assms(2) by (simp add: load_def table_mem_sel)
  have nk: "node_key ?s1 b = Inr k"
    by (simp add: node_key_def table_mem_sel)
  have lp: "At_loop ?s tbl k (Bucket 2 i) = Some (Inr (?s1, Bucket 2 i))"
    by (subst At_loop.simps) (simp add: ld ne ld1 nk table_mem_sel assms(4))
  have er: "element_ref ?s1 (Bucket 2 i) = Inr (Element_of (Suc b))"
    using assms(5) by (simp add: element_ref_def ld1 table_mem_sel)
  show ?thesis
    by (simp add: HashTable_At_def table_mem_sel assms(1) lp er)
qed

lemma At_table_mem_head:
  assumes "unat (h k) mod HASHSIZE = i" "i < length arr" "arr ! i = n" "n \<noteq> 0"
    "nds n = Some nd" "prs (pair nd) = Some pr" "c k (key pr) = 0"
  shows "HashTable_At (table_mem c h r arr nds prs b w) tbl k =
     Some (Inr (table_mem c h r arr nds prs b w, Element_of (pair nd)))"
proof -
  let ?s = "table_mem c h r arr nds prs b w"
  have ld: "load ?s (Bucket 2 i) = Inr n"
    using assms(2,3) by (simp add: load_def table_mem_sel)
  have nk: "node_key ?s n = Inr (key pr)"
    using assms(5,6) by (simp add: node_key_def table_mem_sel)
  have lp: "At_loop ?s tbl k (Bucket 2 i) = Some (Inr (?s, Bucket 2 i))"
    by (subst At_loop.simps) (simp add: ld nk table_mem_sel assms(4,7))
  have er: "element_ref ?s (Bucket 2 i) = Inr (Element_of (pair nd))"
    using assms(4,5) by (simp add: element_ref_def ld table_mem_sel)
  show ?thesis
    by (simp add: HashTable_At_def table_mem_sel assms(1) lp er)
qed

lemma hash_ptr_bucket: "k < HASHSIZE \<Longrightarrow> unat (hash_ptr k) mod HASHSIZE = k"
  by (simp add: hash_ptr_def HASHSIZE_def unat_of_nat)

section \<open>One entry per distinct key\<close>

lemma concat_map_empty: "concat (map (\<lambda>i. []) js) = []"
  by (induction js) auto

lemma HASHSIZE_gt: "1 < HASHSIZE" "3 < HASHSIZE" "5 < HASHSIZE" "7 < HASHSIZE" "42 < HASHSIZE"
  by (simp_all add: HASHSIZE_def)

lemma entries_single: "i < HASHSIZE \<Longrightarrow> entries ((\<lambda>i. [])(i := xs)) = xs"
  by (simp add: entries_upd concat_map_empty)

lemma entries_two:
  assumes "i < j" "j < HASHSIZE"
  shows "entries ((\<lambda>i. [])(i := xs, j := ys)) = xs @ ys"
proof -
  have i: "i < HASHSIZE" using assms by simp
  have a: "map ((\<lambda>i. [])(i := xs)) [Suc j..<HASHSIZE] = map (\<lambda>i. []) [Suc j..<HASHSIZE]"
    using assms by simp
  have "[0..<j] = [0..<i] @ [i] @ [Suc i..<j]"
    using assms(1) by (metis append_Cons append_Nil le_add2 le_add_same_cancel2 less_imp_add_positive upt_add_eq_append upt_rec)
  moreover have "map ((\<lambda>i. [])(i := xs)) [0..<i] = map (\<lambda>i. []) [0..<i]" by simp
  moreover have "map ((\<lambda>i. [])(i := xs)) [Suc i..<j] = map (\<lambda>i. []) [Suc i..<j]" by simp
  ultimately have b: "concat (map ((\<lambda>i. [])(i := xs)) [0..<j]) = xs"
    by (simp add: concat_map_empty)
  show ?thesis
    by (simp add: entries_upd[OF assms(2)] a b concat_map_empty)
qed

lemma num_distinct_parity: "num_distinct cmp_parity [3, 5] = 1"
proof -
  have "key_class cmp_parity [3, 5] 3 = {3, 5}" "key_class cmp_parity [3, 5] 5 = {3, 5}"
    by (auto simp: key_class_def cmp_parity_def)
  then show ?thesis by (simp add: num_distinct_def)
qed

lemma At_seq_parity: "At_seq mem_parity tbl [3, 5] = Some (Inr mem_parity2)"
proof -
  have a: "HashTable_At mem_parity tbl 3 = Some (Inr (
     table_mem cmp_parity hash_ptr None ((replicate HASHSIZE 0)[3 := 3])
       [3 \<mapsto> \<lparr>next' = 0, pair = 4\<rparr>] [4 \<mapsto> \<lparr>key = 3, element = 0\<rparr>] 5 [], Element_of 4))"
    unfolding mem_parity_def
    by (subst At_table_mem_empty_bucket[where i = 3])
      (simp_all add: hash_ptr_bucket HASHSIZE_gt cmp_parity_def)
  have b: "HashTable_At (table_mem cmp_parity hash_ptr None ((replicate HASHSIZE 0)[3 := 3])
       [3 \<mapsto> \<lparr>next' = 0, pair = 4\<rparr>] [4 \<mapsto> \<lparr>key = 3, element = 0\<rparr>] 5 []) tbl 5 =
     Some (Inr (mem_parity2, Element_of 6))"
    unfolding mem_parity2_def
    by (subst At_table_mem_empty_bucket[where i = 5])
      (simp_all add: hash_ptr_bucket HASHSIZE_gt cmp_parity_def)
  show ?thesis by (simp add: a b)
qed

lemma wf_mem_parity2: "wf_table mem_parity2 tbl cs_parity2"
proof -
  have e: "entries cs_parity2 =
    [\<lparr>e_node = 3, e_pair = 4, e_key = 3\<rparr>, \<lparr>e_node = 5, e_pair = 6, e_key = 5\<rparr>]"
    unfolding cs_parity2_def by (simp add: entries_two HASHSIZE_gt)
  show ?thesis
    unfolding wf_table_def e
    by (auto simp: mem_parity2_def table_mem_sel tbl_not_null cs_parity2_def
        nth_list_update HASHSIZE_gt null_free_table_mem)
qed


lemma cmp_ptr_0_iff: "cmp_ptr m1 m2 = 0 \<longleftrightarrow> (of_nat m1 :: 32 word) = of_nat m2"
  by (simp add: cmp_ptr_def signed_eq_0_iff)

lemma equivalence_on_cmp_ptr: "equivalence_on K cmp_ptr"
  by (simp add: equivalence_on_def cmp_ptr_0_iff)

lemma hash_respects_cmp_ptr: "hash_respects K cmp_ptr hash_ptr"
  by (simp add: hash_respects_def cmp_ptr_0_iff hash_ptr_def)

lemma num_distinct_cmp_ptr:
  assumes "\<And>k. k \<in> set ks \<Longrightarrow> k < 2 ^ 32"
  shows "num_distinct cmp_ptr ks = card (set ks)"
proof -
  have "key_class cmp_ptr ks k = {k}" if "k \<in> set ks" for k
    using that assms
    by (auto simp: key_class_def cmp_ptr_0_iff word_of_nat_eq_iff take_bit_nat_eq_self)
  then have "key_class cmp_ptr ks ` set ks = (\<lambda>k. {k}) ` set ks" by simp
  then show ?thesis
    by (simp add: num_distinct_def card_image)
qed

text \<open>
  C1, as amended. Take a ready table whose entries sit in the buckets their keys select
  and hold pairwise different keys (an empty table is one), and a sequence of keys such
  that, on the keys of the table and of the sequence, the equality strategy is an
  equivalence relation and the hash strategy gives equal keys the same bucket. Then after
  the calls of \<^verbatim>\<open>HashTable_At\<close> for any initial part of the sequence, repeats and order
  being free, the table is ready, no two of its entries hold equal keys, and the number of
  its entries is the number of distinct keys among the keys it held and the keys of the
  calls made, distinctness by the equality strategy.
\<close>

theorem At_seq_one_entry_per_distinct_key:
  fixes s :: "('k, 'w) memory"
  assumes "wf_table s hashTable cs" and "placed s hashTable cs"
    and "unique_keys (table_cmp s hashTable) (entries cs)"
    and "equivalence_on (set (map e_key (entries cs) @ ks)) (table_cmp s hashTable)"
    and "hash_respects (set (map e_key (entries cs) @ ks)) (table_cmp s hashTable)
           (table_hash s hashTable)"
  shows "\<exists>s' cs'. At_seq s hashTable (take n ks) = Some (Inr s') \<and>
     wf_table s' hashTable cs' \<and>
     unique_keys (table_cmp s hashTable) (entries cs') \<and>
     length (entries cs') =
       num_distinct (table_cmp s hashTable) (map e_key (entries cs) @ take n ks)"
proof -
  have sub: "set (map e_key (entries cs) @ take n ks) \<subseteq> set (map e_key (entries cs) @ ks)"
    using set_take_subset[of n ks] by auto
  show ?thesis
    by (rule At_seq_count[OF assms(1-3) equivalence_on_subset[OF assms(4) sub]
          hash_respects_subset[OF assms(5) sub]])
qed

theorem At_seq_one_entry_per_distinct_key_witness:
  "wf_table mem_init tbl (\<lambda>i. []) \<and> placed mem_init tbl (\<lambda>i. []) \<and>
   unique_keys cmp_ptr (entries (\<lambda>i. [])) \<and>
   equivalence_on (set [42, 7, 42]) cmp_ptr \<and>
   hash_respects (set [42, 7, 42]) cmp_ptr hash_ptr \<and>
   (\<exists>s' cs'. At_seq mem_init tbl [42, 7, 42] = Some (Inr s') \<and> wf_table s' tbl cs' \<and>
      unique_keys cmp_ptr (entries cs') \<and> length (entries cs') = 2)"
proof -
  have c: "table_cmp mem_init tbl = cmp_ptr" and h: "table_hash mem_init tbl = hash_ptr"
    by (simp_all add: mem_init_def table_mem_sel)
  have pl: "placed mem_init tbl (\<lambda>i. [])" by (simp add: placed_def)
  have un: "unique_keys cmp_ptr (entries (\<lambda>i. []))"
    by (simp add: unique_keys_def entries_empty)
  have eq: "equivalence_on (set [42, 7, 42]) cmp_ptr" by (rule equivalence_on_cmp_ptr)
  have hr: "hash_respects (set [42, 7, 42]) cmp_ptr hash_ptr" by (rule hash_respects_cmp_ptr)
  have st: "set [42, 7, 42] = {42, 7 :: nat}" by auto
  have "k < 2 ^ 32" if "k \<in> set [42, 7, 42]" for k :: nat using that by auto
  then have "num_distinct cmp_ptr [42, 7, 42] = card (set [42, 7, 42 :: nat])"
    by (rule num_distinct_cmp_ptr)
  then have n: "num_distinct cmp_ptr [42, 7, 42] = 2" unfolding st by simp
  from At_seq_one_entry_per_distinct_key[of mem_init tbl "\<lambda>i. []" "[42, 7, 42]" 3]
    wf_mem_init pl un eq hr
  have "\<exists>s' cs'. At_seq mem_init tbl [42, 7, 42] = Some (Inr s') \<and> wf_table s' tbl cs' \<and>
      unique_keys cmp_ptr (entries cs') \<and> length (entries cs') = 2"
    by (simp add: c h entries_empty n)
  with wf_mem_init pl un eq hr show ?thesis by blast
qed

theorem At_seq_equal_keys_in_two_buckets:
  "wf_table mem_parity tbl (\<lambda>i. []) \<and> equivalence_on UNIV cmp_parity \<and>
   At_seq mem_parity tbl [3, 5] = Some (Inr mem_parity2) \<and>
   wf_table mem_parity2 tbl cs_parity2 \<and> length (entries cs_parity2) = 2 \<and>
   num_distinct cmp_parity [3, 5] = 1 \<and> \<not> unique_keys cmp_parity (entries cs_parity2)"
proof -
  have e: "entries cs_parity2 =
    [\<lparr>e_node = 3, e_pair = 4, e_key = 3\<rparr>, \<lparr>e_node = 5, e_pair = 6, e_key = 5\<rparr>]"
    unfolding cs_parity2_def by (simp add: entries_two HASHSIZE_gt)
  have a: "wf_table mem_parity tbl (\<lambda>i. [])"
    unfolding mem_parity_def by (rule wf_table_mem_empty) simp_all
  have b: "equivalence_on UNIV cmp_parity"
    by (simp add: equivalence_on_def cmp_parity_def)
  have u: "\<not> unique_keys cmp_parity (entries cs_parity2)"
    unfolding e by (simp add: unique_keys_def cmp_parity_def)
  from a b At_seq_parity wf_mem_parity2 num_distinct_parity u show ?thesis
    by (simp add: e)
qed

section \<open>Value stability\<close>

lemma entries_in_bucket:
  "e \<in> set (entries cs) \<Longrightarrow> \<exists>j<HASHSIZE. e \<in> set (cs j)"
  by (auto simp: set_entries)

lemma write_slot_wf:
  fixes s :: "('k, 'w) memory"
  assumes wf: "wf_table s hashTable cs" and e: "e \<in> set (entries cs)"
  shows "\<exists>s2. write_slot s (Element_of (e_pair e)) v = Inr s2 \<and> wf_table s2 hashTable cs \<and>
     tables s2 = tables s \<and> brk s2 = brk s \<and> world s2 = world s \<and>
     read_slot s2 (Element_of (e_pair e)) = Inr v"
proof -
  from wf obtain t :: "('k, 'w) HashTable" and c h arr where w0:
    "tables s hashTable = Some t" "cmp t = Some c" "hash t = Some h"
    "arrays s (hashListArr t) = Some arr" "length arr = HASHSIZE"
    "hashTable \<noteq> 0" "0 < brk s"
    "\<And>i. i < HASHSIZE \<Longrightarrow> chain s (arr ! i) (cs i)"
    "\<And>e. e \<in> set (entries cs) \<Longrightarrow> e_node e < brk s \<and> e_pair e < brk s"
    "distinct (map e_node (entries cs))" "distinct (map e_pair (entries cs))"
    by (rule wf_tableE) (rule that, assumption+)
  from entries_in_bucket[OF e] obtain j where j: "j < HASHSIZE" "e \<in> set (cs j)" by blast
  from chain_mem[OF w0(8)[OF j(1)] j(2)] obtain pr where pr: "pairs s (e_pair e) = Some pr"
    by blast
  define s2 where "s2 = s\<lparr>pairs := (pairs s)(e_pair e \<mapsto> pr\<lparr>element := v\<rparr>)\<rparr>"
  have ws: "write_slot s (Element_of (e_pair e)) v = Inr s2"
    using pr by (simp add: write_slot_def s2_def)
  have rd: "read_slot s2 (Element_of (e_pair e)) = Inr v"
    by (simp add: read_slot_def s2_def)
  have keys: "\<And>q. map_option key (pairs s2 q) = map_option key (pairs s q)"
    using pr by (simp add: s2_def)
  have wf2: "wf_table s2 hashTable cs"
  proof (rule wf_tableI[where t = t and c = c and h = h and arr = arr])
    show "tables s2 hashTable = Some t" using w0(1) by (simp add: s2_def)
    show "cmp t = Some c" "hash t = Some h" "length arr = HASHSIZE" "hashTable \<noteq> 0"
      "distinct (map e_node (entries cs))" "distinct (map e_pair (entries cs))"
      by (rule w0)+
    show "arrays s2 (hashListArr t) = Some arr" using w0(4) by (simp add: s2_def)
    show "0 < brk s2" using w0(7) by (simp add: s2_def)
    show "\<And>e. e \<in> set (entries cs) \<Longrightarrow> e_node e < brk s2 \<and> e_pair e < brk s2"
      using w0(9) by (simp add: s2_def)
    fix i assume "i < HASHSIZE"
    from w0(8)[OF this] show "chain s2 (arr ! i) (cs i)"
    proof (rule chain_frame)
      fix x assume "x \<in> set (cs i)"
      show "nodes s2 (e_node x) = nodes s (e_node x) \<and>
        map_option key (pairs s2 (e_pair x)) = map_option key (pairs s (e_pair x))"
        using keys by (simp add: s2_def)
    qed
  next
    show "null_free s2"
      using wf_null_free[OF wf] pr by (auto simp: null_free_def s2_def intro: live_not_null)
  qed
  have "tables s2 = tables s" "brk s2 = brk s" "world s2 = world s" by (simp_all add: s2_def)
  with ws wf2 rd show ?thesis by blast
qed

lemma lookup_entry_snoc:
  "lookup_entry c k es = None \<Longrightarrow> c k (e_key x) = 0 \<Longrightarrow> lookup_entry c k (es @ [x]) = Some x"
  by (induction es) (auto simp: lookup_entry_def split: if_splits)

lemma At_then_found:
  fixes s :: "('k, 'w) memory"
  assumes wf: "wf_table s hashTable cs" and at: "HashTable_At s hashTable k = Some (Inr (s1, r))"
  shows "\<exists>cs1 e. wf_table s1 hashTable cs1 \<and> tables s1 = tables s \<and> r = Element_of (e_pair e) \<and>
     lookup_entry (table_cmp s hashTable) k (cs1 (bucket_of s hashTable k)) = Some e \<and>
     (\<forall>j. j \<noteq> bucket_of s hashTable k \<longrightarrow> cs1 j = cs j) \<and>
     length (entries cs1) \<le> Suc (length (entries cs))"
proof -
  define c where "c = table_cmp s hashTable"
  define i where "i = bucket_of s hashTable k"
  have i: "i < HASHSIZE" unfolding i_def by (rule bucket_of_less)
  show ?thesis
  proof (cases "lookup_entry c k (cs i)")
    case (Some e)
    from HashTable_At_found[OF wf Some[unfolded c_def i_def]] at
    have "s1 = s" "r = Element_of (e_pair e)" by simp_all
    with wf Some show ?thesis unfolding c_def i_def by auto
  next
    case None
    have kk: "c k k = 0"
    proof (rule ccontr)
      assume "c k k \<noteq> 0"
      from HashTable_At_diverges[OF wf None[unfolded c_def i_def] this[unfolded c_def]] at
      show False by simp
    qed
    from HashTable_At_insert[OF wf None[unfolded c_def i_def] kk[unfolded c_def]] at
    have s1: "r = Element_of (Suc (brk s))"
      "wf_table s1 hashTable (cs(i := cs i @ [new_e s k]))" "tables s1 = tables s"
      unfolding i_def by auto
    have "lookup_entry c k ((cs(i := cs i @ [new_e s k])) i) = Some (new_e s k)"
      using lookup_entry_snoc[OF None, of "new_e s k"] kk by (simp add: new_e_def)
    moreover have "Suc (brk s) = e_pair (new_e s k)" by (simp add: new_e_def)
    moreover have "length (entries (cs(i := cs i @ [new_e s k]))) = Suc (length (entries cs))"
      by (rule length_entries_snoc[OF i])
    ultimately show ?thesis using s1 unfolding c_def i_def by auto
  qed
qed

lemma HashTable_At_returns:
  fixes s :: "('k, 'w) memory"
  assumes wf: "wf_table s hashTable cs"
    and c: "(\<exists>e\<in>set (cs (bucket_of s hashTable k)). table_cmp s hashTable k (e_key e) = 0) \<or>
      table_cmp s hashTable k k = 0"
  shows "\<exists>s1 r. HashTable_At s hashTable k = Some (Inr (s1, r))"
proof (cases "lookup_entry (table_cmp s hashTable) k (cs (bucket_of s hashTable k))")
  case (Some e)
  from HashTable_At_found[OF wf Some] show ?thesis by blast
next
  case None
  with c have "table_cmp s hashTable k k = 0" by (simp add: lookup_entry_None)
  from HashTable_At_insert[OF wf None this] show ?thesis by blast
qed

lemma At_write_same_slot:
  fixes s :: "('k, 'w) memory"
  assumes "wf_table s hashTable cs" and "HashTable_At s hashTable k = Some (Inr (s1, r))"
  shows "\<exists>s2. write_slot s1 r v = Inr s2 \<and>
     HashTable_At s2 hashTable k = Some (Inr (s2, r)) \<and>
     HashTable_Has s2 hashTable k = Some (Inr r) \<and>
     read_slot s2 r = Inr v"
proof -
  from At_then_found[OF assms] obtain cs1 e where f:
    "wf_table s1 hashTable cs1" "tables s1 = tables s" "r = Element_of (e_pair e)"
    "lookup_entry (table_cmp s hashTable) k (cs1 (bucket_of s hashTable k)) = Some e"
    by blast
  have "e \<in> set (cs1 (bucket_of s hashTable k))" using lookup_entry_Some[OF f(4)] by simp
  then have e: "e \<in> set (entries cs1)" by (rule bucket_in_entries[OF bucket_of_less])
  from write_slot_wf[OF f(1) e, of v] obtain s2 where s2:
    "write_slot s1 (Element_of (e_pair e)) v = Inr s2" "wf_table s2 hashTable cs1"
    "tables s2 = tables s1" "read_slot s2 (Element_of (e_pair e)) = Inr v" by blast
  have t: "tables s2 = tables s" using s2(3) f(2) by simp
  have lk: "lookup_entry (table_cmp s2 hashTable) k (cs1 (bucket_of s2 hashTable k)) = Some e"
    using f(4) same_tables(1,3)[OF t] by simp
  have "HashTable_At s2 hashTable k = Some (Inr (s2, Element_of (e_pair e)))"
    by (rule HashTable_At_found[OF s2(2) lk])
  moreover have "HashTable_Has s2 hashTable k = Some (Inr (Element_of (e_pair e)))"
    using HashTable_Has_wf[OF s2(2), of k] lk by simp
  ultimately show ?thesis using s2(1,4) f(3) by simp
qed

text \<open>
  C2, as amended. On a ready table, let the equality strategy find the key \<open>k\<close> equal to a
  key in the chain of \<open>k\<close>'s bucket or equal to itself. Then \<^verbatim>\<open>HashTable_At\<close> for \<open>k\<close> returns
  a pointer \<open>r\<close>; every value \<open>v\<close> can be written through \<open>r\<close>, and in the memory after the
  write both \<^verbatim>\<open>HashTable_At\<close> and \<^verbatim>\<open>HashTable_Has\<close> for \<open>k\<close> return the same pointer \<open>r\<close>, the
  former leaving the memory as it is, and reading through \<open>r\<close> yields \<open>v\<close>.
\<close>

theorem At_value_stability:
  fixes s :: "('k, 'w) memory"
  assumes "wf_table s hashTable cs"
    and "(\<exists>e\<in>set (cs (bucket_of s hashTable k)). table_cmp s hashTable k (e_key e) = 0) \<or>
      table_cmp s hashTable k k = 0"
  shows "\<exists>s1 r. HashTable_At s hashTable k = Some (Inr (s1, r)) \<and>
     (\<forall>v. \<exists>s2. write_slot s1 r v = Inr s2 \<and>
        HashTable_At s2 hashTable k = Some (Inr (s2, r)) \<and>
        HashTable_Has s2 hashTable k = Some (Inr r) \<and>
        read_slot s2 r = Inr v)"
proof -
  from HashTable_At_returns[OF assms] obtain s1 r where
    at: "HashTable_At s hashTable k = Some (Inr (s1, r))" by blast
  have "\<exists>s2. write_slot s1 r v = Inr s2 \<and>
        HashTable_At s2 hashTable k = Some (Inr (s2, r)) \<and>
        HashTable_Has s2 hashTable k = Some (Inr r) \<and>
        read_slot s2 r = Inr v" for v
    by (rule At_write_same_slot[OF assms(1) at])
  with at show ?thesis by blast
qed

lemma At_mem_init_42: "HashTable_At mem_init tbl 42 = Some (Inr (mem_42, Element_of 4))"
  unfolding mem_init_def mem_42_def
  by (subst At_table_mem_empty_bucket[where i = 42])
    (simp_all add: hash_ptr_bucket HASHSIZE_gt cmp_ptr_def)

lemma write_mem_42: "write_slot mem_42 (Element_of 4) 88 = Inr mem_42X"
  by (simp add: write_slot_def mem_42_def mem_42X_def table_mem_def)

lemma At_mem_42X_7: "HashTable_At mem_42X tbl 7 = Some (Inr (mem_42X_7, Element_of 6))"
  unfolding mem_42X_def mem_42X_7_def
  by (subst At_table_mem_empty_bucket[where i = 7])
    (simp_all add: hash_ptr_bucket HASHSIZE_gt cmp_ptr_def fun_upd_twist)

lemma write_mem_42X_7: "write_slot mem_42X_7 (Element_of 6) 89 = Inr mem_two"
  by (simp add: write_slot_def mem_42X_7_def mem_two_def table_mem_def)

lemma entries_cs_42: "entries cs_42 = [\<lparr>e_node = 3, e_pair = 4, e_key = 42\<rparr>]"
  unfolding cs_42_def by (simp add: entries_single HASHSIZE_gt)

lemma wf_mem_42X: "wf_table mem_42X tbl cs_42"
  unfolding wf_table_def entries_cs_42
  by (auto simp: mem_42X_def table_mem_sel tbl_not_null cs_42_def nth_list_update HASHSIZE_gt
      null_free_table_mem)

lemma wf_mem_never: "wf_table mem_never tbl (\<lambda>i. [])"
  unfolding mem_never_def by (rule wf_table_mem_empty) simp_all

theorem At_value_stability_witness:
  "wf_table mem_init tbl (\<lambda>i. []) \<and> table_cmp mem_init tbl 42 42 = 0 \<and>
   HashTable_At mem_init tbl 42 = Some (Inr (mem_42, Element_of 4)) \<and>
   write_slot mem_42 (Element_of 4) 88 = Inr mem_42X \<and>
   HashTable_At mem_42X tbl 42 = Some (Inr (mem_42X, Element_of 4)) \<and>
   HashTable_Has mem_42X tbl 42 = Some (Inr (Element_of 4)) \<and>
   read_slot mem_42X (Element_of 4) = Inr 88 \<and>
   wf_table mem_42X tbl cs_42 \<and> table_cmp mem_42X tbl 143 143 = 0 \<and>
   (\<exists>s1 r. HashTable_At mem_42X tbl 143 = Some (Inr (s1, r)) \<and>
      (\<exists>s2. write_slot s1 r 90 = Inr s2 \<and>
         HashTable_At s2 tbl 143 = Some (Inr (s2, r)) \<and>
         HashTable_Has s2 tbl 143 = Some (Inr r) \<and>
         read_slot s2 r = Inr 90))"
proof -
  have r: "table_cmp mem_init tbl 42 42 = 0"
    by (simp add: mem_init_def table_mem_sel cmp_ptr_def)
  from At_value_stability[OF wf_mem_init, of 42] r
  have a: "\<exists>s2. write_slot mem_42 (Element_of 4) 88 = Inr s2 \<and>
        HashTable_At s2 tbl 42 = Some (Inr (s2, Element_of 4)) \<and>
        HashTable_Has s2 tbl 42 = Some (Inr (Element_of 4)) \<and>
        read_slot s2 (Element_of 4) = Inr 88"
    by (simp add: At_mem_init_42)
  have r': "table_cmp mem_42X tbl 143 143 = 0"
    by (simp add: mem_42X_def table_mem_sel cmp_ptr_def)
  from At_value_stability[OF wf_mem_42X, of 143] r'
  have b: "\<exists>s1 r. HashTable_At mem_42X tbl 143 = Some (Inr (s1, r)) \<and>
      (\<exists>s2. write_slot s1 r 90 = Inr s2 \<and>
         HashTable_At s2 tbl 143 = Some (Inr (s2, r)) \<and>
         HashTable_Has s2 tbl 143 = Some (Inr r) \<and>
         read_slot s2 r = Inr 90)"
    by blast
  from a b wf_mem_init wf_mem_42X r r' show ?thesis
    by (simp add: At_mem_init_42 write_mem_42)
qed

text \<open>
  Without the condition on the key there may be no pointer to write through: with an
  equality strategy that never returns 0, \<^verbatim>\<open>HashTable_At\<close> for key 7 on the empty ready
  table \<open>mem_never\<close> does not return, and \<^verbatim>\<open>HashTable_Has\<close> for key 7 returns the null pointer.
\<close>

theorem At_never_equal_no_slot_to_write:
  "HashTable_Ready mem_never tbl = Inr True \<and> wf_table mem_never tbl (\<lambda>i. []) \<and>
   HashTable_At mem_never tbl 7 = None \<and>
   HashTable_Has mem_never tbl 7 = Some (Inr Null_slot)"
proof -
  have "HashTable_At mem_never tbl 7 = None"
    by (rule HashTable_At_diverges[OF wf_mem_never])
      (simp_all add: lookup_entry_def mem_never_def table_mem_sel cmp_never_def)
  moreover have "HashTable_Has mem_never tbl 7 = Some (Inr Null_slot)"
    using HashTable_Has_wf[OF wf_mem_never, of 7] by (simp add: lookup_entry_def)
  ultimately show ?thesis using wf_mem_never wf_table_ready[OF wf_mem_never] by simp
qed

section \<open>Teardown of a ready table\<close>

lemma wf_entries_pairs:
  fixes s :: "('k, 'w) memory"
  assumes wf: "wf_table s hashTable cs" and e: "e \<in> set (entries cs)"
  shows "\<exists>nd pr. nodes s (e_node e) = Some nd \<and> pair nd = e_pair e \<and>
     pairs s (e_pair e) = Some pr \<and> key pr = e_key e"
proof -
  from entries_in_bucket[OF e] obtain j where j: "j < HASHSIZE" "e \<in> set (cs j)" by blast
  from wf obtain t :: "('k, 'w) HashTable" and arr where
    "arrays s (hashListArr t) = Some arr" "\<And>i. i < HASHSIZE \<Longrightarrow> chain s (arr ! i) (cs i)"
    by (auto elim: wf_tableE)
  from chain_mem[OF this(2)[OF j(1)] j(2)] show ?thesis by blast
qed

text \<open>
  C3. On a ready table, \<^verbatim>\<open>HashTable_Destroy\<close> returns, and the caller's state afterwards
  is the state before with the release callback, when one was supplied, applied once per
  entry of the table, bucket after bucket and each chain from its head, every call
  receiving the pointer to that entry's own pair, which holds the entry's key and its
  value slot as they were when \<^verbatim>\<open>HashTable_Destroy\<close> was called (without a callback the
  caller's state is unchanged). The entries are pairwise different and so are their pairs,
  so no entry and no pair is released twice. Afterwards \<^verbatim>\<open>HashTable_Ready\<close> returns false.
\<close>

theorem HashTable_Destroy_releases_every_entry:
  fixes s :: "('k, 'w) memory"
  assumes "wf_table s hashTable cs"
  shows "\<exists>s'. HashTable_Destroy s hashTable = Some (Inr s') \<and>
     world s' = foldl (release (table_onRemove s hashTable) s) (world s) (entries cs) \<and>
     HashTable_Ready s' hashTable = Inr False \<and>
     distinct (entries cs) \<and> distinct (map e_pair (entries cs)) \<and>
     (\<forall>e\<in>set (entries cs). \<exists>nd pr. nodes s (e_node e) = Some nd \<and> pair nd = e_pair e \<and>
        pairs s (e_pair e) = Some pr \<and> key pr = e_key e)"
proof -
  from HashTable_Destroy_wf[OF assms] obtain s' where s':
    "HashTable_Destroy s hashTable = Some (Inr s')"
    "world s' = foldl (release (table_onRemove s hashTable) s) (world s) (entries cs)"
    "HashTable_Ready s' hashTable = Inr False" by blast
  have d: "distinct (map e_node (entries cs))" "distinct (map e_pair (entries cs))"
    using assms by (auto elim: wf_tableE)
  from d(1) have "distinct (entries cs)" by (simp add: distinct_map)
  moreover have "\<forall>e\<in>set (entries cs). \<exists>nd pr. nodes s (e_node e) = Some nd \<and>
      pair nd = e_pair e \<and> pairs s (e_pair e) = Some pr \<and> key pr = e_key e"
    using wf_entries_pairs[OF assms] by blast
  ultimately show ?thesis using s' d(2) by blast
qed

lemma entries_cs_two:
  "entries cs_two = [\<lparr>e_node = 5, e_pair = 6, e_key = 7\<rparr>, \<lparr>e_node = 3, e_pair = 4, e_key = 42\<rparr>]"
  unfolding cs_two_def by (simp add: entries_two HASHSIZE_gt)

lemma wf_mem_two: "wf_table mem_two tbl cs_two"
  unfolding wf_table_def entries_cs_two
  by (auto simp: mem_two_def table_mem_sel tbl_not_null cs_two_def nth_list_update HASHSIZE_gt
      null_free_table_mem)

theorem HashTable_Destroy_releases_every_entry_witness:
  "wf_table mem_two tbl cs_two \<and>
   (\<exists>s'. HashTable_Destroy mem_two tbl = Some (Inr s') \<and>
      world s' = [(6, \<lparr>key = 7, element = 89\<rparr>), (4, \<lparr>key = 42, element = 88\<rparr>)] \<and>
      HashTable_Ready s' tbl = Inr False)"
proof -
  from HashTable_Destroy_releases_every_entry[OF wf_mem_two] obtain s' where s':
    "HashTable_Destroy mem_two tbl = Some (Inr s')"
    "world s' = foldl (release (table_onRemove mem_two tbl) mem_two) (world mem_two)
       (entries cs_two)"
    "HashTable_Ready s' tbl = Inr False" by blast
  have "world s' = [(6, \<lparr>key = 7, element = 89\<rparr>), (4, \<lparr>key = 42, element = 88\<rparr>)]"
    unfolding s'(2) entries_cs_two
    by (simp add: mem_two_def table_mem_sel release_def log_onRemove_def)
  with s'(1,3) wf_mem_two show ?thesis by blast
qed

section \<open>Insertion of an absent key\<close>

lemma wf_mem_42X_7: "wf_table mem_42X_7 tbl cs_two"
  unfolding wf_table_def entries_cs_two
  by (auto simp: mem_42X_7_def table_mem_sel tbl_not_null cs_two_def nth_list_update HASHSIZE_gt
      null_free_table_mem)

text \<open>
  C4, as amended. On a ready table, let \<open>k\<close> be a key that the equality strategy finds
  equal to no key of the table and equal to itself. Then \<^verbatim>\<open>HashTable_At\<close> for \<open>k\<close> returns;
  the table is ready again and its chains are the chains before with one new entry, whose
  key is \<open>k\<close>, appended at the tail of the chain of \<open>k\<close>'s bucket, so the table has exactly
  one entry more; the returned pointer is the address of the element of the new entry's
  pair, and reading through it yields the null pointer.
\<close>

theorem At_absent_key_appends_one_entry:
  fixes s :: "('k, 'w) memory"
  assumes "wf_table s hashTable cs"
    and "\<forall>e\<in>set (entries cs). table_cmp s hashTable k (e_key e) \<noteq> 0"
    and "table_cmp s hashTable k k = 0"
  shows "\<exists>s1. HashTable_At s hashTable k = Some (Inr (s1, Element_of (e_pair (new_e s k)))) \<and>
     wf_table s1 hashTable
       (cs(bucket_of s hashTable k := cs (bucket_of s hashTable k) @ [new_e s k])) \<and>
     length (entries (cs(bucket_of s hashTable k := cs (bucket_of s hashTable k) @ [new_e s k])))
       = Suc (length (entries cs)) \<and>
     e_key (new_e s k) = k \<and>
     read_slot s1 (Element_of (e_pair (new_e s k))) = Inr 0"
proof -
  define i where "i = bucket_of s hashTable k"
  have i: "i < HASHSIZE" unfolding i_def by (rule bucket_of_less)
  have "\<forall>e\<in>set (cs i). table_cmp s hashTable k (e_key e) \<noteq> 0"
    using assms(2) bucket_in_entries[OF i] by blast
  then have lk: "lookup_entry (table_cmp s hashTable) k (cs (bucket_of s hashTable k)) = None"
    unfolding i_def by (simp add: lookup_entry_None)
  from HashTable_At_insert[OF assms(1) lk assms(3)] obtain s1 where s1:
    "HashTable_At s hashTable k = Some (Inr (s1, Element_of (Suc (brk s))))"
    "wf_table s1 hashTable (cs(i := cs i @ [new_e s k]))"
    "pairs s1 = (pairs s)(Suc (brk s) \<mapsto> \<lparr>key = k, element = 0\<rparr>)"
    unfolding i_def by blast
  have rd: "read_slot s1 (Element_of (Suc (brk s))) = Inr 0"
    by (simp add: read_slot_def s1(3))
  have ln: "length (entries (cs(i := cs i @ [new_e s k]))) = Suc (length (entries cs))"
    by (rule length_entries_snoc[OF i])
  from s1(1,2) rd ln show ?thesis
    unfolding i_def by (auto simp: new_e_def)
qed

theorem At_absent_key_appends_one_entry_witness:
  "wf_table mem_42X tbl cs_42 \<and>
   entries cs_42 = [\<lparr>e_node = 3, e_pair = 4, e_key = 42\<rparr>] \<and>
   cmp_ptr 7 42 \<noteq> 0 \<and> cmp_ptr 7 7 = 0 \<and>
   HashTable_At mem_42X tbl 7 = Some (Inr (mem_42X_7, Element_of 6)) \<and>
   wf_table mem_42X_7 tbl (cs_42(7 := [\<lparr>e_node = 5, e_pair = 6, e_key = 7\<rparr>])) \<and>
   length (entries (cs_42(7 := [\<lparr>e_node = 5, e_pair = 6, e_key = 7\<rparr>]))) = 2 \<and>
   read_slot mem_42X_7 (Element_of 6) = Inr 0"
proof -
  have c: "table_cmp mem_42X tbl = cmp_ptr" and b: "bucket_of mem_42X tbl 7 = 7"
    and k: "brk mem_42X = 5"
    by (simp_all add: mem_42X_def table_mem_sel hash_ptr_bucket HASHSIZE_gt)
  have a: "\<forall>e\<in>set (entries cs_42). table_cmp mem_42X tbl 7 (e_key e) \<noteq> 0"
    by (simp add: entries_cs_42 c cmp_ptr_def)
  have r: "table_cmp mem_42X tbl 7 7 = 0" by (simp add: c cmp_ptr_def)
  have e7: "cs_42 7 = []" by (simp add: cs_42_def)
  from At_absent_key_appends_one_entry[OF wf_mem_42X a r]
  show ?thesis
    using wf_mem_42X
    by (simp add: b new_e_def k e7 At_mem_42X_7 entries_cs_42 cmp_ptr_def)
qed

theorem At_never_equal_does_not_return:
  "wf_table mem_never tbl (\<lambda>i. []) \<and> entries (\<lambda>i. []) = ([] :: nat entry list) \<and>
   HashTable_At mem_never tbl 5 = None"
proof -
  have "HashTable_At mem_never tbl 5 = None"
    by (rule HashTable_At_diverges[OF wf_mem_never])
      (simp_all add: lookup_entry_def mem_never_def table_mem_sel cmp_never_def)
  with wf_mem_never show ?thesis by (simp add: entries_empty)
qed

section \<open>Bucket selection and misses\<close>

lemma bucket_143: "unat (hash_ptr 143) mod HASHSIZE = 42"
  by (simp add: hash_ptr_def HASHSIZE_def)

text \<open>
  C5. The capacity \<open>HASHSIZE\<close> is 101. On a ready table and for every key \<open>k\<close>, the cell
  that both \<^verbatim>\<open>HashTable_Has\<close> and \<^verbatim>\<open>HashTable_At\<close> start from is the slot of the bucket array
  at index \<open>hash(k) mod 101\<close>; what \<^verbatim>\<open>HashTable_Has\<close> returns is decided by the chain of
  that bucket alone; and when \<^verbatim>\<open>HashTable_At\<close> returns, the table is ready again (its
  bucket array still has 101 slots), the chains of all other buckets are as before, and
  the returned pointer belongs to an entry of that bucket.
\<close>

theorem Has_At_select_bucket_hash_mod_101:
  fixes s :: "('k, 'w) memory"
  assumes "wf_table s hashTable cs"
  shows "HASHSIZE = 101 \<and>
     bucket_of s hashTable k = unat (table_hash s hashTable k) mod 101 \<and>
     (\<exists>t. tables s hashTable = Some t \<and>
        call_hash s hashTable k = Inr (table_hash s hashTable k) \<and>
        bucket_cell s hashTable (table_hash s hashTable k) =
          Inr (Bucket (hashListArr t) (unat (table_hash s hashTable k) mod 101))) \<and>
     HashTable_Has s hashTable k = Some (Inr
       (case lookup_entry (table_cmp s hashTable) k (cs (bucket_of s hashTable k)) of
          None \<Rightarrow> Null_slot
        | Some e \<Rightarrow> Element_of (e_pair e))) \<and>
     (\<forall>s1 r. HashTable_At s hashTable k = Some (Inr (s1, r)) \<longrightarrow>
        (\<exists>es. wf_table s1 hashTable (cs(bucket_of s hashTable k := es)) \<and>
              tables s1 = tables s \<and> r \<in> Element_of ` e_pair ` set es))"
proof -
  from assms obtain t :: "('k, 'w) HashTable" and c h where t:
    "tables s hashTable = Some t" "cmp t = Some c" "hash t = Some h"
    by (auto elim: wf_tableE)
  note st = wf_table_strategies[OF t]
  have a: "bucket_of s hashTable k = unat (table_hash s hashTable k) mod 101"
    by (simp add: bucket_of_def HASHSIZE_def)
  have b: "\<exists>t. tables s hashTable = Some t \<and>
        call_hash s hashTable k = Inr (table_hash s hashTable k) \<and>
        bucket_cell s hashTable (table_hash s hashTable k) =
          Inr (Bucket (hashListArr t) (unat (table_hash s hashTable k) mod 101))"
    using t(1) st by (simp add: HASHSIZE_def)
  have d: "\<forall>s1 r. HashTable_At s hashTable k = Some (Inr (s1, r)) \<longrightarrow>
        (\<exists>es. wf_table s1 hashTable (cs(bucket_of s hashTable k := es)) \<and>
              tables s1 = tables s \<and> r \<in> Element_of ` e_pair ` set es)"
  proof (intro allI impI)
    fix s1 r assume at: "HashTable_At s hashTable k = Some (Inr (s1, r))"
    from At_then_found[OF assms at] obtain cs1 e where f:
      "wf_table s1 hashTable cs1" "tables s1 = tables s" "r = Element_of (e_pair e)"
      "lookup_entry (table_cmp s hashTable) k (cs1 (bucket_of s hashTable k)) = Some e"
      "\<forall>j. j \<noteq> bucket_of s hashTable k \<longrightarrow> cs1 j = cs j"
      by blast
    have "cs1 = cs(bucket_of s hashTable k := cs1 (bucket_of s hashTable k))"
      using f(5) by (auto simp: fun_eq_iff)
    with f(1) have "wf_table s1 hashTable (cs(bucket_of s hashTable k := cs1 (bucket_of s hashTable k)))"
      by simp
    moreover have "r \<in> Element_of ` e_pair ` set (cs1 (bucket_of s hashTable k))"
      using lookup_entry_Some[OF f(4)] f(3) by blast
    ultimately show "\<exists>es. wf_table s1 hashTable (cs(bucket_of s hashTable k := es)) \<and>
              tables s1 = tables s \<and> r \<in> Element_of ` e_pair ` set es"
      using f(2) by blast
  qed
  from a b d HashTable_Has_wf[OF assms, of k] show ?thesis
    by (simp add: HASHSIZE_def)
qed

theorem Has_At_select_bucket_hash_mod_101_witness:
  "wf_table mem_42X tbl cs_42 \<and> bucket_of mem_42X tbl 143 = 42 \<and>
   HashTable_Has mem_42X tbl 143 = Some (Inr Null_slot) \<and>
   HashTable_Has mem_42X tbl 42 = Some (Inr (Element_of 4)) \<and>
   HashTable_At mem_42X tbl 42 = Some (Inr (mem_42X, Element_of 4)) \<and>
   (\<exists>es. wf_table mem_42X tbl (cs_42(42 := es)) \<and> Element_of 4 \<in> Element_of ` e_pair ` set es)"
proof -
  have c: "table_cmp mem_42X tbl = cmp_ptr"
    and b: "bucket_of mem_42X tbl 143 = 42" "bucket_of mem_42X tbl 42 = 42"
    by (simp_all add: mem_42X_def table_mem_sel hash_ptr_bucket HASHSIZE_gt bucket_143)
  have cs: "cs_42 42 = [\<lparr>e_node = 3, e_pair = 4, e_key = 42\<rparr>]" by (simp add: cs_42_def)
  note th = Has_At_select_bucket_hash_mod_101[OF wf_mem_42X]
  have h1: "HashTable_Has mem_42X tbl 143 = Some (Inr Null_slot)"
    using th[of 143] by (simp add: b c cs lookup_entry_def cmp_ptr_def)
  have h2: "HashTable_Has mem_42X tbl 42 = Some (Inr (Element_of 4))"
    using th[of 42] by (simp add: b c cs lookup_entry_def cmp_ptr_def)
  have at: "HashTable_At mem_42X tbl 42 = Some (Inr (mem_42X, Element_of 4))"
    unfolding mem_42X_def
    by (subst At_table_mem_head[where i = 42 and n = 3 and nd = "\<lparr>next' = 0, pair = 4\<rparr>"
          and pr = "\<lparr>key = 42, element = 88\<rparr>"])
      (simp_all add: hash_ptr_bucket HASHSIZE_gt cmp_ptr_def)
  from th[of 42] at
  have "\<exists>es. wf_table mem_42X tbl (cs_42(42 := es)) \<and> Element_of 4 \<in> Element_of ` e_pair ` set es"
    by (simp add: b)
  with wf_mem_42X b(1) h1 h2 at show ?thesis by blast
qed

text \<open>
  C6. On a ready table, \<^verbatim>\<open>HashTable_Has\<close> for a key that the equality strategy finds equal
  to no key of the table returns the null pointer. The call changes nothing: the source
  function assigns only to its local variable, so its model reads the memory and returns
  the pointer alone, and the memory after the call is the memory before it.
\<close>

theorem Has_absent_key_returns_null:
  fixes s :: "('k, 'w) memory"
  assumes "wf_table s hashTable cs"
    and "\<forall>e\<in>set (entries cs). table_cmp s hashTable k (e_key e) \<noteq> 0"
  shows "HashTable_Has s hashTable k = Some (Inr Null_slot)"
proof -
  have "\<And>e. e \<in> set (cs (bucket_of s hashTable k)) \<Longrightarrow> e \<in> set (entries cs)"
    by (rule bucket_in_entries[OF bucket_of_less])
  with assms(2)
  have "\<forall>e\<in>set (cs (bucket_of s hashTable k)). table_cmp s hashTable k (e_key e) \<noteq> 0"
    by blast
  then have "lookup_entry (table_cmp s hashTable) k (cs (bucket_of s hashTable k)) = None"
    by (simp add: lookup_entry_None)
  with HashTable_Has_wf[OF assms(1), of k] show ?thesis by simp
qed

theorem Has_absent_key_returns_null_witness:
  "wf_table mem_42X tbl cs_42 \<and>
   entries cs_42 = [\<lparr>e_node = 3, e_pair = 4, e_key = 42\<rparr>] \<and> cmp_ptr 143 42 \<noteq> 0 \<and>
   bucket_of mem_42X tbl 143 = 42 \<and>
   HashTable_Has mem_42X tbl 143 = Some (Inr Null_slot)"
proof -
  have c: "table_cmp mem_42X tbl = cmp_ptr" and b: "bucket_of mem_42X tbl 143 = 42"
    by (simp_all add: mem_42X_def table_mem_sel bucket_143)
  have a: "\<forall>e\<in>set (entries cs_42). table_cmp mem_42X tbl 143 (e_key e) \<noteq> 0"
    by (simp add: entries_cs_42 c cmp_ptr_def)
  from Has_absent_key_returns_null[OF wf_mem_42X a] wf_mem_42X b show ?thesis
    by (simp add: entries_cs_42 cmp_ptr_def)
qed

section \<open>When the loop of HashTable_At ends\<close>

lemma At_loop_n_sound:
  "At_loop_n n s hashTable k cl = Some y \<Longrightarrow> At_loop s hashTable k cl = Some y"
proof (induction n arbitrary: s cl)
  case 0
  then show ?case by simp
next
  case (Suc n)
  show ?case
    using Suc.prems
    by (subst At_loop.simps)
      (auto simp: Let_def split: sum.splits if_splits intro: Suc.IH)
qed

lemma At_loop_n_chain:
  fixes s :: "('k, 'w) memory"
  assumes t: "tables s hashTable = Some t" "cmp t = Some c"
  shows "chain s p es \<Longrightarrow> load s cl = Inr p \<Longrightarrow>
     (\<exists>e\<in>set es. c k (e_key e) = 0) \<or> c k k = 0 \<Longrightarrow>
     tail_cell cl es \<noteq> Next (brk s) \<Longrightarrow>
     \<exists>y. At_loop_n (Suc (length es)) s hashTable k cl = Some y"
proof (induction es arbitrary: p cl)
  case Nil
  then have ld: "load s cl = Inr 0" and fr: "cl \<noteq> Next (brk s)" and kk: "c k k = 0"
    by simp_all
  from new_entry_step[OF ld fr, of k] obtain s1 where s1:
    "new_entry s cl k = Inr s1" "load s1 cl = Inr (brk s)" "node_key s1 (brk s) = Inr k"
    "tables s1 = tables s" by blast
  have "call_cmp s1 hashTable k k = Inr 0" using t s1(4) kk by (simp add: call_cmp_def)
  with ld s1 show ?case by simp
next
  case (Cons x es)
  from chain_ConsD[OF Cons.prems(1)] obtain nd :: HashList where x: "p = e_node x" "p \<noteq> 0"
    "chain s (next' nd) es" "node_key s p = Inr (e_key x)" "load s (Next p) = Inr (next' nd)"
    by blast
  have cc: "call_cmp s hashTable k (e_key x) = Inr (c k (e_key x))"
    using t by (simp add: call_cmp_def)
  have step: "At_loop_n (Suc (Suc (length es))) s hashTable k cl =
     (if c k (e_key x) \<noteq> 0 then At_loop_n (Suc (length es)) s hashTable k (Next p)
      else Some (Inr (s, cl)))"
    using Cons.prems(2) x(2,4) cc by simp
  show ?case
  proof (cases "c k (e_key x) = 0")
    case True
    with step show ?thesis by simp
  next
    case False
    with Cons.prems(3) have rest: "(\<exists>e\<in>set es. c k (e_key e) = 0) \<or> c k k = 0" by auto
    from Cons.prems(4) x(1) have "tail_cell (Next p) es \<noteq> Next (brk s)" by simp
    from Cons.IH[OF x(3) x(5) rest this] step False show ?thesis by simp
  qed
qed


text \<open>
  C10, as amended. On a ready table, \<^verbatim>\<open>HashTable_At\<close> for the key \<open>k\<close> returns exactly when
  the equality strategy finds \<open>k\<close> equal to a key in the chain of \<open>k\<close>'s bucket or equal to
  itself. In that case the table is ready again with at most one entry more than before,
  and the \<^verbatim>\<open>do ... while\<close> loop has ended within one execution of its body per entry of
  the chain and one more, that is within one traversal of the chain. Otherwise (no key of
  the chain equal to \<open>k\<close>, and \<open>k\<close> not equal to itself) the call never returns: the loop
  compares \<open>k\<close> with the key of the node it has just appended, which is \<open>k\<close>, and goes on.
\<close>

theorem At_returns_iff_found_or_reflexive:
  fixes s :: "('k, 'w) memory"
  assumes "wf_table s hashTable cs"
  shows
    "((\<exists>e\<in>set (cs (bucket_of s hashTable k)). table_cmp s hashTable k (e_key e) = 0) \<or>
      table_cmp s hashTable k k = 0 \<longrightarrow>
        (\<exists>s1 r cs1. HashTable_At s hashTable k = Some (Inr (s1, r)) \<and>
           wf_table s1 hashTable cs1 \<and> length (entries cs1) \<le> Suc (length (entries cs))) \<and>
        (\<exists>cl y. bucket_cell s hashTable (table_hash s hashTable k) = Inr cl \<and>
           At_loop_n (Suc (length (cs (bucket_of s hashTable k)))) s hashTable k cl = Some y \<and>
           At_loop s hashTable k cl = Some y)) \<and>
     (\<not> ((\<exists>e\<in>set (cs (bucket_of s hashTable k)). table_cmp s hashTable k (e_key e) = 0) \<or>
          table_cmp s hashTable k k = 0) \<longrightarrow>
        HashTable_At s hashTable k = None)"
proof (intro conjI impI)
  define c where "c = table_cmp s hashTable"
  define i where "i = bucket_of s hashTable k"
  have i: "i < HASHSIZE" unfolding i_def by (rule bucket_of_less)
  from assms obtain t :: "('k, 'w) HashTable" and c' h arr where w0:
    "tables s hashTable = Some t" "cmp t = Some c'" "hash t = Some h"
    "arrays s (hashListArr t) = Some arr" "length arr = HASHSIZE"
    "hashTable \<noteq> 0" "0 < brk s"
    "\<And>i. i < HASHSIZE \<Longrightarrow> chain s (arr ! i) (cs i)"
    "\<And>e. e \<in> set (entries cs) \<Longrightarrow> e_node e < brk s \<and> e_pair e < brk s"
    "distinct (map e_node (entries cs))" "distinct (map e_pair (entries cs))"
    by (rule wf_tableE) (rule that, assumption+)
  note st = wf_table_strategies[OF w0(1-3)]
  have cc: "c' = c" by (simp add: c_def st)
  {
    assume cond: "(\<exists>e\<in>set (cs (bucket_of s hashTable k)). table_cmp s hashTable k (e_key e) = 0) \<or>
      table_cmp s hashTable k k = 0"
    then have cond': "(\<exists>e\<in>set (cs i). c k (e_key e) = 0) \<or> c k k = 0"
      by (simp add: c_def i_def)
    have ret: "\<exists>s1 r. HashTable_At s hashTable k = Some (Inr (s1, r))"
    proof (cases "lookup_entry c k (cs i)")
      case (Some e)
      from HashTable_At_found[OF assms Some[unfolded c_def i_def]] show ?thesis by blast
    next
      case None
      with cond' have "c k k = 0" by (simp add: lookup_entry_None)
      from HashTable_At_insert[OF assms None[unfolded c_def i_def] this[unfolded c_def]]
      show ?thesis by blast
    qed
    then obtain s1 r where at: "HashTable_At s hashTable k = Some (Inr (s1, r))" by blast
    from At_then_found[OF assms at] at
    show "\<exists>s1 r cs1. HashTable_At s hashTable k = Some (Inr (s1, r)) \<and>
           wf_table s1 hashTable cs1 \<and> length (entries cs1) \<le> Suc (length (entries cs))"
      by blast
    define cl where "cl = Bucket (hashListArr t) i"
    have bc: "bucket_cell s hashTable (table_hash s hashTable k) = Inr cl"
      by (simp add: st cl_def i_def)
    have ld: "load s cl = Inr (arr ! i)"
      using w0(4,5) i by (simp add: load_def cl_def)
    have fr: "tail_cell cl (cs i) \<noteq> Next (brk s)"
      unfolding cl_def by (rule wf_tail_cell_fresh[OF assms i])
    from At_loop_n_chain[OF w0(1,2) w0(8)[OF i] ld cond'[folded cc] fr]
    obtain y where y: "At_loop_n (Suc (length (cs i))) s hashTable k cl = Some y" by blast
    from At_loop_n_sound[OF y] y bc
    show "\<exists>cl y. bucket_cell s hashTable (table_hash s hashTable k) = Inr cl \<and>
           At_loop_n (Suc (length (cs (bucket_of s hashTable k)))) s hashTable k cl = Some y \<and>
           At_loop s hashTable k cl = Some y"
      unfolding i_def by blast
  }
  {
    assume "\<not> ((\<exists>e\<in>set (cs (bucket_of s hashTable k)). table_cmp s hashTable k (e_key e) = 0) \<or>
          table_cmp s hashTable k k = 0)"
    then have n: "lookup_entry (table_cmp s hashTable) k (cs (bucket_of s hashTable k)) = None"
      and kk: "table_cmp s hashTable k k \<noteq> 0"
      by (simp_all add: lookup_entry_None)
    show "HashTable_At s hashTable k = None"
      by (rule HashTable_At_diverges[OF assms n kk])
  }
qed

lemma At_mem_42X_143_loop:
  "bucket_cell mem_42X tbl (table_hash mem_42X tbl 143) = Inr (Bucket 2 42)"
  by (simp add: mem_42X_def table_mem_sel bucket_143)

theorem At_returns_iff_found_or_reflexive_witness:
  "wf_table mem_42X tbl cs_42 \<and> cmp_ptr 143 143 = 0 \<and>
   (\<exists>s1 r cs1. HashTable_At mem_42X tbl 143 = Some (Inr (s1, r)) \<and> wf_table s1 tbl cs1 \<and>
      length (entries cs1) \<le> 2) \<and>
   (\<exists>y. At_loop_n 2 mem_42X tbl 143 (Bucket 2 42) = Some y \<and>
        At_loop mem_42X tbl 143 (Bucket 2 42) = Some y) \<and>
   wf_table mem_never tbl (\<lambda>i. []) \<and> cmp_never 5 5 \<noteq> 0 \<and>
   HashTable_At mem_never tbl 5 = None"
proof -
  have c: "table_cmp mem_42X tbl = cmp_ptr" and b: "bucket_of mem_42X tbl 143 = 42"
    by (simp_all add: mem_42X_def table_mem_sel bucket_143)
  have cs: "cs_42 42 = [\<lparr>e_node = 3, e_pair = 4, e_key = 42\<rparr>]" by (simp add: cs_42_def)
  have r: "cmp_ptr 143 143 = 0" by (simp add: cmp_ptr_def)
  have len: "Suc (length (cs_42 (bucket_of mem_42X tbl 143))) = 2"
    "Suc (length (entries cs_42)) = 2"
    by (simp_all add: b cs entries_cs_42)
  from At_returns_iff_found_or_reflexive[OF wf_mem_42X, of 143, THEN conjunct1] r
  have a: "(\<exists>s1 r cs1. HashTable_At mem_42X tbl 143 = Some (Inr (s1, r)) \<and> wf_table s1 tbl cs1 \<and>
      length (entries cs1) \<le> 2) \<and>
   (\<exists>y. At_loop_n 2 mem_42X tbl 143 (Bucket 2 42) = Some y \<and>
        At_loop mem_42X tbl 143 (Bucket 2 42) = Some y)"
    unfolding len by (simp add: c At_mem_42X_143_loop del: At_loop_n.simps)
  have c': "table_cmp mem_never tbl = cmp_never"
    by (simp add: mem_never_def table_mem_sel)
  from At_returns_iff_found_or_reflexive[OF wf_mem_never, of 5, THEN conjunct2]
  have n: "HashTable_At mem_never tbl 5 = None"
    by (simp add: c' cmp_never_def)
  from a n wf_mem_42X wf_mem_never r show ?thesis
    by (simp add: cmp_never_def)
qed

lemma entries_cs_five: "entries cs_five = [\<lparr>e_node = 3, e_pair = 4, e_key = 5\<rparr>]"
  unfolding cs_five_def by (simp add: entries_single HASHSIZE_gt)

lemma wf_mem_five: "wf_table mem_five tbl cs_five"
  unfolding wf_table_def entries_cs_five
  by (auto simp: mem_five_def table_mem_sel tbl_not_null cs_five_def nth_list_update HASHSIZE_gt
      null_free_table_mem)

lemma bucket_106: "unat (hash_ptr 106) mod HASHSIZE = 5"
  by (simp add: hash_ptr_def HASHSIZE_def)

theorem At_returns_for_key_unequal_to_itself:
  "HashTable_At mem_five0 tbl 5 = Some (Inr (mem_five, Element_of 4)) \<and>
   wf_table mem_five tbl cs_five \<and> unique_keys cmp_five (entries cs_five) \<and>
   HashTable_At mem_five tbl 106 = Some (Inr (mem_five, Element_of 4)) \<and>
   cmp_five 106 106 \<noteq> 0"
proof -
  have a: "HashTable_At mem_five0 tbl 5 = Some (Inr (mem_five, Element_of 4))"
    unfolding mem_five0_def mem_five_def
    by (subst At_table_mem_empty_bucket[where i = 5])
      (simp_all add: hash_ptr_bucket HASHSIZE_gt cmp_five_def)
  have b: "HashTable_At mem_five tbl 106 = Some (Inr (mem_five, Element_of 4))"
    unfolding mem_five_def
    by (subst At_table_mem_head[where i = 5 and n = 3 and nd = "\<lparr>next' = 0, pair = 4\<rparr>"
          and pr = "\<lparr>key = 5, element = 0\<rparr>"])
      (simp_all add: bucket_106 HASHSIZE_gt cmp_five_def)
  have u: "unique_keys cmp_five (entries cs_five)"
    by (simp add: entries_cs_five unique_keys_def)
  from a b u wf_mem_five show ?thesis by (simp add: cmp_five_def)
qed

end
